theory Spec2Isabelle
  imports Complex_Main
begin

text \<open>
  The scheduler of \<^verbatim>\<open>src/services/geminiService.ts\<close>: the class
  \<^verbatim>\<open>PromiseQueue\<close>, which runs submitted tasks up to a concurrency limit with
  priority tasks first, the function \<^verbatim>\<open>retryOperation\<close>, which classifies the
  errors of an operation and retries it with a backoff, and
  \<^verbatim>\<open>regenerateQuestionData\<close>, which goes through both. Asynchronous steps are
  events, and what the environment decides (the outcome of each invocation of an
  operation, each draw of \<^verbatim>\<open>Math.random\<close>) is an argument.
\<close>

section \<open>JavaScript values and thrown errors\<close>

text \<open>
  The values the service handles: what \<^verbatim>\<open>JSON.parse\<close> returns, plus
  \<^verbatim>\<open>undefined\<close>. An object is its list of own properties.
\<close>

datatype js =
    JUndefined
  | JNull
  | JBool bool
  | JNum real
  | JStr string
  | JArr "js list"
  | JObj "(string \<times> js) list"

text \<open>
  A thrown error, as \<^verbatim>\<open>retryOperation\<close> reads it: the properties
  \<^verbatim>\<open>code\<close>, \<^verbatim>\<open>status\<close> and \<^verbatim>\<open>message\<close>.
  \<^verbatim>\<open>code\<close> and \<^verbatim>\<open>status\<close> hold any value; \<^verbatim>\<open>message\<close> is a
  string when it is present (\<open>None\<close> is \<^verbatim>\<open>undefined\<close>), as it is for every
  \<^verbatim>\<open>Error\<close> instance and every error of the completion client.
\<close>

record error =
  code :: js
  status :: js
  message :: "string option"

section \<open>String operations\<close>

text \<open>
  A string is the list of its characters, in UTF-8 where it is not ASCII. Every needle
  searched for below is ASCII, so a search finds the same occurrences as in the UTF-16
  string of the source.
\<close>

fun startsWith :: "string \<Rightarrow> string \<Rightarrow> bool" where
  "startsWith s [] = True"
| "startsWith [] (c # cs) = False"
| "startsWith (x # xs) (c # cs) = (x = c \<and> startsWith xs cs)"

text \<open>\<^verbatim>\<open>String.prototype.includes\<close>: some position of the string starts with the needle.\<close>

fun includes_str :: "string \<Rightarrow> string \<Rightarrow> bool" where
  "includes_str [] sub = (sub = [])"
| "includes_str (x # xs) sub = (startsWith (x # xs) sub \<or> includes_str xs sub)"

text \<open>
  \<^verbatim>\<open>toLowerCase\<close> on the letters A to Z. No character outside ASCII lower-cases to a
  letter of "quota" or "exhausted", so for the two searches below the other characters
  may stay as they are.
\<close>

definition lowerChar :: "char \<Rightarrow> char" where
  "lowerChar c =
     (case map_of (zip ''ABCDEFGHIJKLMNOPQRSTUVWXYZ'' ''abcdefghijklmnopqrstuvwxyz'') c of
        Some l \<Rightarrow> l
      | None \<Rightarrow> c)"

definition toLowerCase :: "string \<Rightarrow> string" where
  "toLowerCase s = map lowerChar s"

section \<open>The retry policy\<close>

text \<open>
  The tests of \<^verbatim>\<open>retryOperation\<close> on the caught error.
  \<^verbatim>\<open>error.message && (...)\<close> is falsy when the message is
  \<^verbatim>\<open>undefined\<close> or the empty string.
\<close>

definition isRateLimitError :: "error \<Rightarrow> bool" where
  "isRateLimitError e =
     (code e = JNum 429 \<or>
      status e = JNum 429 \<or>
      status e = JStr ''RESOURCE_EXHAUSTED'' \<or>
      (case message e of
         None \<Rightarrow> False
       | Some m \<Rightarrow> m \<noteq> [] \<and>
           (includes_str m ''429'' \<or>
            includes_str (toLowerCase m) ''quota'' \<or>
            includes_str (toLowerCase m) ''exhausted'')))"

definition isNetworkError :: "error \<Rightarrow> bool" where
  "isNetworkError e =
     (case message e of
        None \<Rightarrow> False
      | Some m \<Rightarrow> m \<noteq> [] \<and>
          (includes_str m ''xhr'' \<or>
           includes_str m ''fetch'' \<or>
           includes_str m ''network'' \<or>
           includes_str m ''Failed to fetch''))"

definition isServerError :: "error \<Rightarrow> bool" where
  "isServerError e =
     (code e = JNum 500 \<or> code e = JNum 503 \<or> status e = JNum 500 \<or> status e = JNum 503)"

definition isRpcError :: "error \<Rightarrow> bool" where
  "isRpcError e =
     (case message e of
        None \<Rightarrow> False
      | Some m \<Rightarrow> m \<noteq> [] \<and> includes_str m ''error code: 6'')"

text \<open>
  What \<^verbatim>\<open>retryOperation\<close> does besides returning: it invokes the operation,
  draws from \<^verbatim>\<open>Math.random\<close> and calls \<^verbatim>\<open>wait\<close>. The state counts
  the invocations and the draws and logs each \<^verbatim>\<open>wait\<close> with its call site:
  \<open>WaitQuota\<close> is \<^verbatim>\<open>wait(waitTime)\<close> in the rate-limit branch,
  \<open>WaitDelay\<close> is \<^verbatim>\<open>wait(delay)\<close> in the network/server/RPC branch.
\<close>

datatype wait = WaitQuota real | WaitDelay real

fun isQuota :: "wait \<Rightarrow> bool" where
  "isQuota (WaitQuota t) = True"
| "isQuota (WaitDelay t) = False"

record rstate =
  calls :: nat
  draws :: nat
  waits :: "wait list"

definition rstate0 :: rstate where
  "rstate0 = \<lparr>calls = 0, draws = 0, waits = []\<rparr>"

text \<open>
  \<open>operation k\<close> is the outcome of invocation number \<open>k\<close> of the operation
  (\<open>Inl\<close> what it throws, \<open>Inr\<close> what it returns) and \<open>rnd k\<close> is what draw
  number \<open>k\<close> of \<^verbatim>\<open>Math.random()\<close> returns. The result is the value the
  returned promise settles with (\<open>Inl\<close> a rejection) and the state afterwards.
\<close>

function retryOperation ::
  "(nat \<Rightarrow> error + 'a) \<Rightarrow> (nat \<Rightarrow> real) \<Rightarrow> int \<Rightarrow> real \<Rightarrow> rstate \<Rightarrow> (error + 'a) \<times> rstate"
where
  "retryOperation operation rnd retries delay st =
     (case operation (calls st) of
        Inr v \<Rightarrow> (Inr v, st\<lparr>calls := Suc (calls st)\<rparr>)
      | Inl e \<Rightarrow>
          if retries \<le> 0 then (Inl e, st\<lparr>calls := Suc (calls st)\<rparr>)
          else if isRateLimitError e then
            retryOperation operation rnd (retries - 1) (delay * 2)
              (st\<lparr>calls := Suc (calls st), draws := Suc (draws st),
                  waits := waits st @ [WaitQuota (5000 + rnd (draws st) * 3000)]\<rparr>)
          else if isNetworkError e \<or> isServerError e \<or> isRpcError e then
            retryOperation operation rnd (retries - 1) (delay * 2)
              (st\<lparr>calls := Suc (calls st), waits := waits st @ [WaitDelay delay]\<rparr>)
          else (Inl e, st\<lparr>calls := Suc (calls st)\<rparr>))"
  by pat_completeness auto
termination
  by (relation "measure (\<lambda>(operation, rnd, retries, delay, st). nat retries)") auto

declare retryOperation.simps [simp del]

text \<open>The default arguments: \<^verbatim>\<open>retries = 2, delay = 2000\<close>.\<close>

definition default_retries :: int where
  "default_retries = 2"

definition default_delay :: real where
  "default_delay = 2000"

text \<open>
  The three outcomes of the branches above for a caught error, once
  \<^verbatim>\<open>retries > 0\<close>: the first \<^verbatim>\<open>if\<close> retries after a drawn wait, the second
  retries after \<^verbatim>\<open>delay\<close>, and otherwise the error is thrown again.
\<close>

datatype classification = RateLimited | Transient | Fatal

definition classify :: "error \<Rightarrow> classification" where
  "classify e =
     (if isRateLimitError e then RateLimited
      else if isNetworkError e \<or> isServerError e \<or> isRpcError e then Transient
      else Fatal)"

subsection \<open>The classification as the specification words it\<close>

text \<open>
  "Contains" is: the needle occurs as a contiguous piece. "Contains case-insensitively"
  is: a contiguous piece equals the needle up to the case of its letters.
\<close>

definition spec_contains :: "string \<Rightarrow> string \<Rightarrow> bool" where
  "spec_contains s needle = (\<exists>pre post. s = pre @ needle @ post)"

definition spec_contains_ci :: "string \<Rightarrow> string \<Rightarrow> bool" where
  "spec_contains_ci s needle =
     (\<exists>pre mid post. s = pre @ mid @ post \<and> toLowerCase mid = toLowerCase needle)"

text \<open>
  rateLimited: code or status 429, or the status \<^verbatim>\<open>RESOURCE_EXHAUSTED\<close>, or a
  message containing "429", "quota" or "exhausted", case-insensitively.
\<close>

definition spec_rateLimited :: "error \<Rightarrow> bool" where
  "spec_rateLimited e =
     (code e = JNum 429 \<or> status e = JNum 429 \<or>
      status e = JStr ''RESOURCE_EXHAUSTED'' \<or>
      (\<exists>m. message e = Some m \<and>
         (spec_contains_ci m ''429'' \<or> spec_contains_ci m ''quota'' \<or>
          spec_contains_ci m ''exhausted'')))"

text \<open>
  transient: not rateLimited, and a message containing a connectivity term, or code or
  status 500 or 503, or a message containing the RPC marker.
\<close>

definition spec_transient :: "error \<Rightarrow> bool" where
  "spec_transient e =
     (\<not> spec_rateLimited e \<and>
      ((\<exists>m. message e = Some m \<and>
          (spec_contains m ''xhr'' \<or> spec_contains m ''fetch'' \<or>
           spec_contains m ''network'' \<or> spec_contains m ''Failed to fetch'')) \<or>
       code e = JNum 500 \<or> code e = JNum 503 \<or>
       status e = JNum 500 \<or> status e = JNum 503 \<or>
       (\<exists>m. message e = Some m \<and> spec_contains m ''error code: 6'')))"

text \<open>fatal: every other case.\<close>

definition spec_fatal :: "error \<Rightarrow> bool" where
  "spec_fatal e = (\<not> spec_rateLimited e \<and> \<not> spec_transient e)"

section \<open>The queue\<close>

text \<open>
  A \<^verbatim>\<open>QueueItem\<close>. The closure \<^verbatim>\<open>wrappedTask\<close> is a fresh object for each
  call of \<^verbatim>\<open>add\<close>; \<open>task\<close> is its identity, the number of closures created
  before it.
\<close>

record QueueItem =
  task :: nat
  priority :: bool

text \<open>\<^verbatim>\<open>Array.prototype.findIndex\<close>: the first index whose element passes, or -1.\<close>

fun findIndex :: "('a \<Rightarrow> bool) \<Rightarrow> 'a list \<Rightarrow> int" where
  "findIndex P [] = - 1"
| "findIndex P (x # xs) =
     (if P x then 0 else (let i = findIndex P xs in if i = - 1 then - 1 else i + 1))"

text \<open>
  \<^verbatim>\<open>xs.splice(start, 0, x)\<close>: a negative start counts from the end, and the start
  is clamped to the array.
\<close>

definition splice :: "'a list \<Rightarrow> int \<Rightarrow> 'a \<Rightarrow> 'a list" where
  "splice xs start x =
     (let n = int (length xs);
          k = (if start < 0 then max (n + start) 0 else min start n)
      in take (nat k) xs @ [x] @ drop (nat k) xs)"

text \<open>The insertion of \<^verbatim>\<open>add\<close>, before it calls \<^verbatim>\<open>run\<close>.\<close>

definition enqueue :: "QueueItem list \<Rightarrow> QueueItem \<Rightarrow> QueueItem list" where
  "enqueue q item =
     (if priority item then
        (let insertIndex = findIndex (\<lambda>i. \<not> priority i) q
         in if insertIndex = - 1 then q @ [item] else splice q insertIndex item)
      else q @ [item])"

text \<open>
  What \<^verbatim>\<open>wrappedTask\<close> does with the outcome of \<^verbatim>\<open>await task()\<close>: the calls
  of \<^verbatim>\<open>resolve\<close> and \<^verbatim>\<open>reject\<close> on the promise that \<^verbatim>\<open>add\<close> returned.
\<close>

datatype 'a settlement = Resolved 'a | Rejected error

definition wrappedTask :: "error + 'a \<Rightarrow> 'a settlement list" where
  "wrappedTask outcome =
     (case outcome of
        Inr result \<Rightarrow> [Resolved result]
      | Inl err \<Rightarrow> [Rejected err])"

text \<open>
  The fields \<open>queue\<close>, \<open>running\<close> and \<open>concurrency\<close> are those of the class.
  The others record what the class does not store:
  \<^item> \<open>created\<close>: how many \<^verbatim>\<open>wrappedTask\<close> closures \<^verbatim>\<open>add\<close> has created;
  \<^item> \<open>submitted\<close>: the items in the order \<^verbatim>\<open>add\<close> received them;
  \<^item> \<open>started\<close>: the items in the order \<^verbatim>\<open>run\<close> called \<^verbatim>\<open>item.task()\<close>;
  \<^item> \<open>pending\<close>: the started tasks whose \<^verbatim>\<open>await task()\<close> has not returned;
  \<^item> \<open>finishing\<close>: the tasks whose \<^verbatim>\<open>wrappedTask\<close> has returned and whose
    \<^verbatim>\<open>finally\<close> callback has not run yet;
  \<^item> \<open>finalized\<close>: the tasks whose \<^verbatim>\<open>finally\<close> callback has run, one entry
    for each run of the callback;
  \<^item> \<open>settled\<close>: every call of \<^verbatim>\<open>resolve\<close> or \<^verbatim>\<open>reject\<close>, with the task
    whose handle it settles.
\<close>

record 'a PromiseQueue =
  queue :: "QueueItem list"
  running :: int
  concurrency :: int
  created :: nat
  submitted :: "QueueItem list"
  started :: "QueueItem list"
  pending :: "nat list"
  finishing :: "nat list"
  finalized :: "nat list"
  settled :: "(nat \<times> 'a settlement) list"

definition PromiseQueue_new :: "int \<Rightarrow> 'a PromiseQueue" where
  "PromiseQueue_new c =
     \<lparr>queue = [], running = 0, concurrency = c, created = 0, submitted = [],
      started = [], pending = [], finishing = [], finalized = [], settled = []\<rparr>"

text \<open>
  One iteration of the loop of \<^verbatim>\<open>run\<close>: \<^verbatim>\<open>shift\<close> the head, and if there
  was one, increment \<^verbatim>\<open>running\<close> and call its task.
\<close>

definition run_body :: "'a PromiseQueue \<Rightarrow> 'a PromiseQueue" where
  "run_body s =
     (case queue s of
        [] \<Rightarrow> s
      | item # rest \<Rightarrow>
          s\<lparr>queue := rest, running := running s + 1,
            started := started s @ [item], pending := pending s @ [task item]\<rparr>)"

function run :: "'a PromiseQueue \<Rightarrow> 'a PromiseQueue" where
  "run s =
     (if running s < concurrency s \<and> 0 < length (queue s) then run (run_body s) else s)"
  by pat_completeness auto
termination
  by (relation "measure (\<lambda>s. length (queue s))")
    (auto simp: run_body_def split: list.splits)

declare run.simps [simp del]

text \<open>The states \<^verbatim>\<open>run\<close> passes through, one after each iteration.\<close>

function run_trace :: "'a PromiseQueue \<Rightarrow> 'a PromiseQueue list" where
  "run_trace s =
     (if running s < concurrency s \<and> 0 < length (queue s)
      then run_body s # run_trace (run_body s) else [])"
  by pat_completeness auto
termination
  by (relation "measure (\<lambda>s. length (queue s))")
    (auto simp: run_body_def split: list.splits)

declare run_trace.simps [simp del]

text \<open>
  The events of the queue:
  \<^item> \<open>Add p\<close>: a caller calls \<^verbatim>\<open>add(task, p)\<close>;
  \<^item> \<open>Settle t outcome\<close>: the \<^verbatim>\<open>await task()\<close> of the started task \<open>t\<close> returns
    or throws, and \<^verbatim>\<open>wrappedTask\<close> runs to its end;
  \<^item> \<open>Finally t\<close>: the \<^verbatim>\<open>finally\<close> callback of task \<open>t\<close> runs.
  Callers may call \<^verbatim>\<open>add\<close> between the last two. An event for a task that is not
  in the matching list cannot happen and leaves the state as it is.
\<close>

datatype 'a event = Add bool | Settle nat "error + 'a" | Finally nat

definition add_insert :: "'a PromiseQueue \<Rightarrow> bool \<Rightarrow> 'a PromiseQueue" where
  "add_insert s p =
     (let item = \<lparr>task = created s, priority = p\<rparr>
      in s\<lparr>queue := enqueue (queue s) item, created := Suc (created s),
           submitted := submitted s @ [item]\<rparr>)"

definition add :: "'a PromiseQueue \<Rightarrow> bool \<Rightarrow> 'a PromiseQueue" where
  "add s p = run (add_insert s p)"

definition settle :: "'a PromiseQueue \<Rightarrow> nat \<Rightarrow> error + 'a \<Rightarrow> 'a PromiseQueue" where
  "settle s t outcome =
     (if t \<in> set (pending s) then
        s\<lparr>settled := settled s @ map (Pair t) (wrappedTask outcome),
          pending := remove1 t (pending s), finishing := finishing s @ [t]\<rparr>
      else s)"

definition finally_decrement :: "'a PromiseQueue \<Rightarrow> nat \<Rightarrow> 'a PromiseQueue" where
  "finally_decrement s t =
     s\<lparr>running := running s - 1, finishing := remove1 t (finishing s),
       finalized := finalized s @ [t]\<rparr>"

definition finally_callback :: "'a PromiseQueue \<Rightarrow> nat \<Rightarrow> 'a PromiseQueue" where
  "finally_callback s t = (if t \<in> set (finishing s) then run (finally_decrement s t) else s)"

fun step :: "'a PromiseQueue \<Rightarrow> 'a event \<Rightarrow> 'a PromiseQueue" where
  "step s (Add p) = add s p"
| "step s (Settle t outcome) = settle s t outcome"
| "step s (Finally t) = finally_callback s t"

fun exec :: "'a PromiseQueue \<Rightarrow> 'a event list \<Rightarrow> 'a PromiseQueue" where
  "exec s [] = s"
| "exec s (ev # evs) = exec (step s ev) evs"

text \<open>Every state an event passes through, after each assignment to a field.\<close>

fun step_trace :: "'a PromiseQueue \<Rightarrow> 'a event \<Rightarrow> 'a PromiseQueue list" where
  "step_trace s (Add p) = add_insert s p # run_trace (add_insert s p)"
| "step_trace s (Settle t outcome) = [settle s t outcome]"
| "step_trace s (Finally t) =
     (if t \<in> set (finishing s)
      then finally_decrement s t # run_trace (finally_decrement s t) else [])"

fun exec_trace :: "'a PromiseQueue \<Rightarrow> 'a event list \<Rightarrow> 'a PromiseQueue list" where
  "exec_trace s [] = [s]"
| "exec_trace s (ev # evs) = s # step_trace s ev @ exec_trace (step s ev) evs"

text \<open>\<open>before a b xs\<close>: \<open>b\<close> occurs in \<open>xs\<close> after the first \<open>a\<close>.\<close>

fun before :: "'a \<Rightarrow> 'a \<Rightarrow> 'a list \<Rightarrow> bool" where
  "before a b [] = False"
| "before a b (x # xs) = (if x = a then b \<in> set xs else before a b xs)"

text \<open>Every high-priority item of the queue stands before every normal one.\<close>

definition high_first :: "QueueItem list \<Rightarrow> bool" where
  "high_first q =
     (\<forall>i<length q. \<forall>j<length q. priority (q ! i) \<and> \<not> priority (q ! j) \<longrightarrow> i < j)"

text \<open>
  What holds in every state the queue reaches: the counter is the number of started tasks
  whose \<^verbatim>\<open>finally\<close> callback has not run, and it is within the limit.
\<close>

definition gate :: "int \<Rightarrow> 'a PromiseQueue \<Rightarrow> bool" where
  "gate C s \<longleftrightarrow>
     concurrency s = C \<and>
     running s = int (length (pending s) + length (finishing s)) \<and>
     running s \<le> C"

text \<open>
  Every started task is pending, finishing or finalized, in one of the three and once, and
  the counter is the number of starts less the number of runs of the
  \<^verbatim>\<open>finally\<close> callback.
\<close>

definition account_inv :: "'a PromiseQueue \<Rightarrow> bool" where
  "account_inv s \<longleftrightarrow>
     distinct (map task (started s @ queue s)) \<and>
     (\<forall>x\<in>set (started s @ queue s). task x < created s) \<and>
     distinct (pending s @ finishing s @ finalized s) \<and>
     set (pending s) \<union> set (finishing s) \<union> set (finalized s) = task ` set (started s) \<and>
     running s = int (length (started s)) - int (length (finalized s))"

text \<open>
  The queue is ordered, and in each priority class the submitted items are the started
  ones followed by the queued ones.
\<close>

definition order_inv :: "'a PromiseQueue \<Rightarrow> bool" where
  "order_inv s \<longleftrightarrow>
     high_first (queue s) \<and>
     (\<forall>p. filter (\<lambda>i. priority i = p) (submitted s) =
          filter (\<lambda>i. priority i = p) (started s @ queue s))"

text \<open>
  The items are distinct objects, and a task is pending or has its handle settled only
  after it was started, never both, and each at most once.
\<close>

definition settle_inv :: "'a PromiseQueue \<Rightarrow> bool" where
  "settle_inv s \<longleftrightarrow>
     distinct (map task (started s @ queue s)) \<and>
     (\<forall>x\<in>set (started s @ queue s). task x < created s) \<and>
     set (pending s) \<subseteq> task ` set (started s) \<and>
     fst ` set (settled s) \<subseteq> task ` set (started s) \<and>
     set (pending s) \<inter> fst ` set (settled s) = {} \<and>
     distinct (pending s) \<and>
     distinct (map fst (settled s))"

section \<open>Questions and the regeneration of a question\<close>

text \<open>
  Property access on an object: \<^verbatim>\<open>o.k\<close> is \<^verbatim>\<open>undefined\<close> when the object has
  no property \<open>k\<close>; \<^verbatim>\<open>o.k = v\<close> replaces the property or adds it.
\<close>

definition getp :: "(string \<times> js) list \<Rightarrow> string \<Rightarrow> js" where
  "getp ps k = (case map_of ps k of None \<Rightarrow> JUndefined | Some v \<Rightarrow> v)"

fun setp :: "(string \<times> js) list \<Rightarrow> string \<Rightarrow> js \<Rightarrow> (string \<times> js) list" where
  "setp [] k v = [(k, v)]"
| "setp ((k', v') # ps) k v = (if k' = k then (k, v) # ps else (k', v') # setp ps k v)"

definition truthy :: "js \<Rightarrow> bool" where
  "truthy v =
     (case v of
        JUndefined \<Rightarrow> False
      | JNull \<Rightarrow> False
      | JBool b \<Rightarrow> b
      | JNum n \<Rightarrow> n \<noteq> 0
      | JStr t \<Rightarrow> t \<noteq> []
      | JArr xs \<Rightarrow> True
      | JObj ps \<Rightarrow> True)"

text \<open>\<^verbatim>\<open>a || b\<close>\<close>

definition or_else :: "js \<Rightarrow> js \<Rightarrow> js" where
  "or_else a b = (if truthy a then a else b)"

text \<open>The decimal index keys of an array.\<close>

definition digit_char :: "nat \<Rightarrow> char" where
  "digit_char d = ''0123456789'' ! d"

fun show_nat :: "nat \<Rightarrow> string" where
  "show_nat n =
     (if n < 10 then [digit_char n] else show_nat (n div 10) @ [digit_char (n mod 10)])"

declare show_nat.simps [simp del]

text \<open>
  What the JavaScript engine supplies and the source does not fix:
  \<^item> \<open>toStr\<close>: the built-in \<^verbatim>\<open>String\<close>;
  \<^item> \<open>codeUnits\<close>: the UTF-16 code units of a string, each as a string, which are
    its indexed properties \<^verbatim>\<open>s[0]\<close>, \<^verbatim>\<open>s[1]\<close> and so on;
  \<^item> \<open>readMessage\<close>: the message of the \<^verbatim>\<open>TypeError\<close> thrown when a property
    of the given value, \<^verbatim>\<open>null\<close> or \<^verbatim>\<open>undefined\<close>, is read;
  \<^item> \<open>createMessage\<close>: the message of the \<^verbatim>\<open>TypeError\<close> thrown when a
    property is created on the given primitive. Engines quote the primitive in it, so the
    message of a response \<^verbatim>\<open>429\<close> contains "429".
\<close>

record engine =
  toStr :: "js \<Rightarrow> string"
  codeUnits :: "string \<Rightarrow> string list"
  readMessage :: "js \<Rightarrow> string"
  createMessage :: "js \<Rightarrow> string"

text \<open>
  The own enumerable properties of a value, which is what a spread copies and what a
  property read by name sees: those of an object, the index keys of an array, the
  code units of a string, none for the other values.
\<close>

definition props :: "engine \<Rightarrow> js \<Rightarrow> (string \<times> js) list" where
  "props eng v =
     (case v of
        JObj ps \<Rightarrow> ps
      | JArr xs \<Rightarrow> zip (map show_nat [0..<length xs]) xs
      | JStr t \<Rightarrow>
          zip (map show_nat [0..<length (codeUnits eng t)]) (map JStr (codeUnits eng t))
      | _ \<Rightarrow> [])"

definition mkError :: "string \<Rightarrow> error" where
  "mkError m = \<lparr>code = JUndefined, status = JUndefined, message = Some m\<rparr>"

text \<open>
  The file is an ES module, so it runs in strict mode: reading a property of
  \<^verbatim>\<open>null\<close> or \<^verbatim>\<open>undefined\<close> and creating a property on a primitive both throw
  a \<^verbatim>\<open>TypeError\<close>.
\<close>

definition readable :: "js \<Rightarrow> bool" where
  "readable v = (v \<noteq> JNull \<and> v \<noteq> JUndefined)"

definition writable :: "js \<Rightarrow> bool" where
  "writable v = (case v of JObj ps \<Rightarrow> True | JArr xs \<Rightarrow> True | _ \<Rightarrow> False)"

definition typeError_read :: "engine \<Rightarrow> js \<Rightarrow> error" where
  "typeError_read eng v = mkError (readMessage eng v)"

definition typeError_create :: "engine \<Rightarrow> js \<Rightarrow> error" where
  "typeError_create eng v = mkError (createMessage eng v)"

definition placeholder_content :: string where
  "placeholder_content =
     ''N'' @ [CHR 0xE1, CHR 0xBB, CHR 0x99] @ ''i dung c'' @ [CHR 0xC3, CHR 0xA2] @ ''u h'' @
     [CHR 0xE1, CHR 0xBB, CHR 0x8F] @ ''i...''"

definition placeholder_solution :: string where
  "placeholder_solution =
     ''(AI ch'' @ [CHR 0xC6, CHR 0xB0] @ ''a t'' @ [CHR 0xE1, CHR 0xBA, CHR 0xA1] @ ''o l'' @
     [CHR 0xE1, CHR 0xBB, CHR 0x9D] @ ''i gi'' @ [CHR 0xE1, CHR 0xBA, CHR 0xA3] @ ''i)''"

definition placeholder_option :: string where
  "placeholder_option =
     ''(Ch'' @ [CHR 0xC6, CHR 0xB0] @ ''a c'' @ [CHR 0xC3, CHR 0xB3] @ '' '' @
     [CHR 0xC4, CHR 0x91, CHR 0xC3, CHR 0xA1] @ ''p '' @ [CHR 0xC3, CHR 0xA1] @ ''n)''"

text \<open>
  The callback of \<^verbatim>\<open>data.sub_questions.map\<close> on one element, with the UUID that
  \<^verbatim>\<open>crypto.randomUUID()\<close> returns for it.
\<close>

definition fix_sub_question :: "engine \<Rightarrow> string \<Rightarrow> js \<Rightarrow> error + js" where
  "fix_sub_question eng uuid sq =
     (if \<not> readable sq then Inl (typeError_read eng sq)
      else Inr (JObj
        (setp (setp (setp (props eng sq)
           ''id'' (JStr uuid))
           ''content'' (or_else (getp (props eng sq) ''content'') (JStr [])))
           ''is_correct'' (JBool (truthy (getp (props eng sq) ''is_correct''))))))"

text \<open>The map over the sub-questions stops at the first element that throws.\<close>

fun fix_sub_questions ::
  "engine \<Rightarrow> (nat \<Rightarrow> string) \<Rightarrow> nat \<Rightarrow> js list \<Rightarrow> error + js list"
where
  "fix_sub_questions eng uuid i [] = Inr []"
| "fix_sub_questions eng uuid i (sq # sqs) =
     (case fix_sub_question eng (uuid i) sq of
        Inl e \<Rightarrow> Inl e
      | Inr sq' \<Rightarrow>
          (case fix_sub_questions eng uuid (Suc i) sqs of
             Inl e \<Rightarrow> Inl e
           | Inr sqs' \<Rightarrow> Inr (sq' # sqs')))"

text \<open>
  \<^verbatim>\<open>validateAndFixData\<close>. \<open>uuid i\<close> is what call number \<open>i\<close> of
  \<^verbatim>\<open>crypto.randomUUID()\<close> returns. The result is the list of the properties of the
  returned value: every caller spreads it.
\<close>

definition validateAndFixData ::
  "engine \<Rightarrow> (nat \<Rightarrow> string) \<Rightarrow> js \<Rightarrow> js \<Rightarrow> error + (string \<times> js) list"
where
  "validateAndFixData eng uuid data0 originalType =
     (let data = (case data0 of
                    JArr xs \<Rightarrow> (if 0 < length xs then hd xs else JObj [])
                  | _ \<Rightarrow> data0)
      in if \<not> readable data then Inl (typeError_read eng data)
         else if \<not> writable data then Inl (typeError_create eng data)
         else
           let d1 = setp (props eng data) ''content''
                      (or_else (getp (props eng data) ''content'') (JStr placeholder_content));
               d2 = setp d1 ''solution_guide''
                      (or_else (getp d1 ''solution_guide'') (JStr placeholder_solution))
           in if originalType = JStr ''multiple_choice'' then
                let d3 = (case getp d2 ''options'' of
                            JArr (x # xs) \<Rightarrow> d2
                          | _ \<Rightarrow> setp d2 ''options'' (JArr (replicate 4 (JStr placeholder_option))));
                    d4 = (if \<not> truthy (getp d3 ''correct_option'')
                          then setp d3 ''correct_option'' (JStr ''A'') else d3)
                in Inr d4
              else if originalType = JStr ''true_false_group'' then
                let sqs = (case getp d2 ''sub_questions'' of JArr xs \<Rightarrow> xs | _ \<Rightarrow> [])
                in (case fix_sub_questions eng uuid 0 sqs of
                      Inl e \<Rightarrow> Inl e
                    | Inr sqs' \<Rightarrow> Inr (setp d2 ''sub_questions'' (JArr sqs')))
              else if originalType = JStr ''short_answer'' then
                (case getp d2 ''correct_answer'' of
                   JStr t \<Rightarrow> Inr d2
                 | ca \<Rightarrow> Inr (setp d2 ''correct_answer''
                           (JStr (if truthy ca then toStr eng ca else []))))
              else if originalType = JStr ''essay'' then
                Inr (if \<not> truthy (getp d2 ''reference_solution'')
                     then setp d2 ''reference_solution'' (JStr []) else d2)
              else Inr d2)"

text \<open>
  The operation that \<^verbatim>\<open>regenerateQuestionData\<close> hands to
  \<^verbatim>\<open>retryOperation\<close>, from the answer of \<^verbatim>\<open>generateContent\<close> on: \<open>response\<close>
  is the error it throws or the \<^verbatim>\<open>text\<close> of what it returns (\<open>None\<close> for
  \<^verbatim>\<open>undefined\<close>), and \<open>safeJsonParse\<close> is the parser with its repair, a value or
  the error it throws.
\<close>

definition regenerate_operation ::
  "engine \<Rightarrow> (nat \<Rightarrow> string) \<Rightarrow> (string \<Rightarrow> error + js) \<Rightarrow>
   (string \<times> js) list \<Rightarrow> error + string option \<Rightarrow> error + (string \<times> js) list"
where
  "regenerate_operation eng uuid safeJsonParse question response =
     (case response of
        Inl e \<Rightarrow> Inl e
      | Inr None \<Rightarrow> Inl (mkError ''Empty response from regeneration'')
      | Inr (Some text) \<Rightarrow>
          if text = [] then Inl (mkError ''Empty response from regeneration'')
          else
            (case safeJsonParse text of
               Inl e \<Rightarrow> Inl e
             | Inr newData \<Rightarrow>
                 (case validateAndFixData eng uuid newData (getp question ''type'') of
                    Inl e \<Rightarrow> Inl e
                  | Inr fixed \<Rightarrow>
                      Inr (setp (setp (setp fixed
                             ''id'' (getp question ''id''))
                             ''type'' (getp question ''type''))
                             ''figure_image'' (getp question ''figure_image'')))))"

text \<open>
  \<^verbatim>\<open>regenerateQuestionData\<close>: the operation under \<^verbatim>\<open>retryOperation\<close> with its
  default arguments; \<open>response k\<close> and \<open>uuid k\<close> belong to invocation \<open>k\<close>. The
  result is what the task given to \<^verbatim>\<open>solvingQueue.add\<close> settles with.
\<close>

definition regenerateQuestionData ::
  "engine \<Rightarrow> (nat \<Rightarrow> nat \<Rightarrow> string) \<Rightarrow> (string \<Rightarrow> error + js) \<Rightarrow> (nat \<Rightarrow> real) \<Rightarrow>
   (string \<times> js) list \<Rightarrow> (nat \<Rightarrow> error + string option) \<Rightarrow> error + (string \<times> js) list"
where
  "regenerateQuestionData eng uuid safeJsonParse rnd question response =
     fst (retryOperation
            (\<lambda>k. regenerate_operation eng (uuid k) safeJsonParse question (response k))
            rnd default_retries default_delay rstate0)"

section \<open>Properties of the error classification\<close>

lemma startsWith_iff: "startsWith s t \<longleftrightarrow> (\<exists>post. s = t @ post)"
  by (induction s t rule: startsWith.induct) auto

lemma includes_str_iff: "includes_str s t \<longleftrightarrow> spec_contains s t"
  unfolding spec_contains_def
proof (induction s)
  case Nil
  show ?case by auto
next
  case (Cons x xs)
  have "(\<exists>pre post. x # xs = pre @ t @ post) \<longleftrightarrow>
        (\<exists>post. x # xs = t @ post) \<or> (\<exists>pre post. xs = pre @ t @ post)"
    by (auto simp: Cons_eq_append_conv)
  then show ?case using Cons by (simp add: startsWith_iff)
qed

lemma lowerChar_digit:
  "lowerChar c = CHR ''4'' \<longleftrightarrow> c = CHR ''4''"
  "lowerChar c = CHR ''2'' \<longleftrightarrow> c = CHR ''2''"
  "lowerChar c = CHR ''9'' \<longleftrightarrow> c = CHR ''9''"
  by (auto simp: lowerChar_def split: option.splits if_splits)


lemma toLowerCase_append: "toLowerCase (a @ b) = toLowerCase a @ toLowerCase b"
  by (simp add: toLowerCase_def)

lemma lower_contains_iff:
  "spec_contains (toLowerCase s) t \<longleftrightarrow>
   (\<exists>pre mid post. s = pre @ mid @ post \<and> toLowerCase mid = t)"
proof
  assume "spec_contains (toLowerCase s) t"
  then obtain pre post where eq: "toLowerCase s = pre @ t @ post"
    by (auto simp: spec_contains_def)
  let ?a = "take (length pre) s"
  let ?m = "take (length t) (drop (length pre) s)"
  let ?z = "drop (length t) (drop (length pre) s)"
  have "s = ?a @ ?m @ ?z" by (simp only: append_take_drop_id)
  moreover have "toLowerCase ?m = take (length t) (drop (length pre) (toLowerCase s))"
    by (simp add: toLowerCase_def take_map drop_map)
  then have "toLowerCase ?m = t" by (simp add: eq)
  ultimately show "\<exists>pre mid post. s = pre @ mid @ post \<and> toLowerCase mid = t" by blast
next
  assume "\<exists>pre mid post. s = pre @ mid @ post \<and> toLowerCase mid = t"
  then obtain pre mid post where "s = pre @ mid @ post" and "toLowerCase mid = t" by blast
  then have "toLowerCase s = toLowerCase pre @ t @ toLowerCase post"
    by (simp add: toLowerCase_append)
  then show "spec_contains (toLowerCase s) t" unfolding spec_contains_def by blast
qed

lemma includes_lower_iff:
  assumes "toLowerCase t = t"
  shows "includes_str (toLowerCase s) t \<longleftrightarrow> spec_contains_ci s t"
  by (simp add: includes_str_iff lower_contains_iff spec_contains_ci_def assms)

lemma lower_429: "toLowerCase mid = ''429'' \<longleftrightarrow> mid = ''429''"
  by (auto simp: toLowerCase_def lowerChar_digit map_eq_Cons_conv)

lemma includes_429_iff: "includes_str s ''429'' \<longleftrightarrow> spec_contains_ci s ''429''"
proof -
  have l: "toLowerCase ''429'' = ''429''" by (simp add: toLowerCase_def lowerChar_def)
  have "spec_contains_ci s ''429'' \<longleftrightarrow> spec_contains s ''429''"
    unfolding spec_contains_ci_def spec_contains_def l lower_429 by auto
  then show ?thesis by (simp add: includes_str_iff)
qed

lemma contains_Nil: "spec_contains [] t \<longleftrightarrow> t = []"
  by (auto simp: spec_contains_def)

lemma contains_ci_Nil: "spec_contains_ci [] t \<longleftrightarrow> t = []"
  by (auto simp: spec_contains_ci_def toLowerCase_def)

lemma isRateLimitError_spec: "isRateLimitError e \<longleftrightarrow> spec_rateLimited e"
proof -
  have q: "toLowerCase ''quota'' = ''quota''" and x: "toLowerCase ''exhausted'' = ''exhausted''"
    by (simp_all add: toLowerCase_def lowerChar_def)
  show ?thesis
    unfolding isRateLimitError_def spec_rateLimited_def
    by (auto simp: includes_429_iff includes_lower_iff [OF q] includes_lower_iff [OF x]
        contains_ci_Nil split: option.splits)
qed

lemma transient_spec:
  "\<not> isRateLimitError e \<and> (isNetworkError e \<or> isServerError e \<or> isRpcError e) \<longleftrightarrow> spec_transient e"
  unfolding spec_transient_def isRateLimitError_spec isNetworkError_def isServerError_def isRpcError_def
  by (auto simp: includes_str_iff contains_Nil split: option.splits)

section \<open>Properties of the retry policy\<close>

text \<open>The branches of \<^verbatim>\<open>retryOperation\<close>, one equation each.\<close>

lemma retry_Inr:
  "operation (calls st) = Inr v \<Longrightarrow>
   retryOperation operation rnd retries delay st = (Inr v, st\<lparr>calls := Suc (calls st)\<rparr>)"
  by (simp add: retryOperation.simps)

lemma retry_exhausted:
  "operation (calls st) = Inl e \<Longrightarrow> retries \<le> 0 \<Longrightarrow>
   retryOperation operation rnd retries delay st = (Inl e, st\<lparr>calls := Suc (calls st)\<rparr>)"
  by (simp add: retryOperation.simps)

lemma retry_RateLimited:
  "operation (calls st) = Inl e \<Longrightarrow> 0 < retries \<Longrightarrow> isRateLimitError e \<Longrightarrow>
   retryOperation operation rnd retries delay st =
   retryOperation operation rnd (retries - 1) (delay * 2)
     (st\<lparr>calls := Suc (calls st), draws := Suc (draws st),
         waits := waits st @ [WaitQuota (5000 + rnd (draws st) * 3000)]\<rparr>)"
  by (subst retryOperation.simps) simp

lemma retry_Transient:
  "operation (calls st) = Inl e \<Longrightarrow> 0 < retries \<Longrightarrow> \<not> isRateLimitError e \<Longrightarrow>
   isNetworkError e \<or> isServerError e \<or> isRpcError e \<Longrightarrow>
   retryOperation operation rnd retries delay st =
   retryOperation operation rnd (retries - 1) (delay * 2)
     (st\<lparr>calls := Suc (calls st), waits := waits st @ [WaitDelay delay]\<rparr>)"
  by (subst retryOperation.simps) auto

lemma retry_Fatal:
  "operation (calls st) = Inl e \<Longrightarrow> \<not> isRateLimitError e \<Longrightarrow>
   \<not> (isNetworkError e \<or> isServerError e \<or> isRpcError e) \<Longrightarrow>
   retryOperation operation rnd retries delay st = (Inl e, st\<lparr>calls := Suc (calls st)\<rparr>)"
  by (subst retryOperation.simps) auto

lemma classify_Transient:
  "classify e = Transient \<longleftrightarrow>
   \<not> isRateLimitError e \<and> (isNetworkError e \<or> isServerError e \<or> isRpcError e)"
  by (simp add: classify_def)

lemma classify_Fatal:
  "classify e = Fatal \<longleftrightarrow>
   \<not> isRateLimitError e \<and> \<not> (isNetworkError e \<or> isServerError e \<or> isRpcError e)"
  by (simp add: classify_def)

lemma classify_RateLimited: "classify e = RateLimited \<longleftrightarrow> isRateLimitError e"
  by (simp add: classify_def)

text \<open>
  An operation that throws a retryable error at every invocation is invoked once more
  than \<open>retries\<close>, and the last error is the result.
\<close>

lemma retry_always_retryable:
  assumes fails: "\<And>k. \<exists>e. operation k = Inl e \<and> classify e \<noteq> Fatal"
    and n: "0 \<le> n"
  shows "fst (retryOperation operation rnd n delay st) = operation (calls st + nat n) \<and>
         calls (snd (retryOperation operation rnd n delay st)) = calls st + nat n + 1"
  using n
proof (induction "nat n" arbitrary: n delay st)
  case 0
  then have n0: "n \<le> 0" and nat0: "nat n = 0" by simp_all
  obtain e where e: "operation (calls st) = Inl e" using fails by blast
  have "retryOperation operation rnd n delay st = (Inl e, st\<lparr>calls := Suc (calls st)\<rparr>)"
    using e n0 by (rule retry_exhausted)
  then show ?case by (simp add: e nat0)
next
  case (Suc m)
  then have pos: "0 < n" and m: "m = nat (n - 1)" and nn: "0 \<le> n - 1" by simp_all
  obtain e where e: "operation (calls st) = Inl e" and c: "classify e \<noteq> Fatal"
    using fails by blast
  have nat_n: "nat n = Suc (nat (n - 1))" using pos by simp
  show ?case
  proof (cases "isRateLimitError e")
    case True
    have "retryOperation operation rnd n delay st =
          retryOperation operation rnd (n - 1) (delay * 2)
            (st\<lparr>calls := Suc (calls st), draws := Suc (draws st),
                waits := waits st @ [WaitQuota (5000 + rnd (draws st) * 3000)]\<rparr>)"
      using e pos True by (rule retry_RateLimited)
    then show ?thesis
      using Suc.hyps(1) [OF m nn] by (simp add: nat_n)
  next
    case False
    then have t: "isNetworkError e \<or> isServerError e \<or> isRpcError e"
      using c by (simp add: classify_def split: if_splits)
    have "retryOperation operation rnd n delay st =
          retryOperation operation rnd (n - 1) (delay * 2)
            (st\<lparr>calls := Suc (calls st), waits := waits st @ [WaitDelay delay]\<rparr>)"
      using e pos False t by (rule retry_Transient)
    then show ?thesis
      using Suc.hyps(1) [OF m nn] by (simp add: nat_n)
  qed
qed

text \<open>
  When every error is transient, the waits are the base delay doubled at each retry.
\<close>

lemma retry_always_transient_waits:
  assumes fails: "\<And>k. \<exists>e. operation k = Inl e \<and> classify e = Transient"
    and n: "0 \<le> n"
  shows "waits (snd (retryOperation operation rnd n delay st)) =
         waits st @ map (\<lambda>k. WaitDelay (delay * 2 ^ k)) [0..<nat n]"
  using n
proof (induction "nat n" arbitrary: n delay st)
  case 0
  then have n0: "n \<le> 0" and nat0: "nat n = 0" by simp_all
  obtain e where e: "operation (calls st) = Inl e" using fails by blast
  have "retryOperation operation rnd n delay st = (Inl e, st\<lparr>calls := Suc (calls st)\<rparr>)"
    using e n0 by (rule retry_exhausted)
  then show ?case by (simp add: nat0)
next
  case (Suc m)
  then have pos: "0 < n" and m: "m = nat (n - 1)" and nn: "0 \<le> n - 1" by simp_all
  obtain e where e: "operation (calls st) = Inl e" and c: "classify e = Transient"
    using fails by blast
  have nat_n: "nat n = Suc (nat (n - 1))" using pos by simp
  have r: "\<not> isRateLimitError e" and t: "isNetworkError e \<or> isServerError e \<or> isRpcError e"
    using c by (simp_all add: classify_Transient)
  have step: "retryOperation operation rnd n delay st =
        retryOperation operation rnd (n - 1) (delay * 2)
          (st\<lparr>calls := Suc (calls st), waits := waits st @ [WaitDelay delay]\<rparr>)"
    using e pos r t by (rule retry_Transient)
  have upt: "[0..<Suc (nat (n - 1))] = 0 # map Suc [0..<nat (n - 1)]"
    by (simp add: upt_conv_Cons map_Suc_upt del: upt_Suc)
  show ?case
    unfolding step nat_n upt using Suc.hyps(1) [OF m nn]
    by (simp add: comp_def mult.assoc)
qed

text \<open>Every wait of the rate-limit branch lies in the window, whatever the errors are.\<close>

lemma retry_quota_window:
  "(\<forall>k. 0 \<le> rnd k \<and> rnd k < 1) \<Longrightarrow>
   (\<forall>t. WaitQuota t \<in> set (waits st) \<longrightarrow> 5000 \<le> t \<and> t \<le> 8000) \<Longrightarrow>
   (\<forall>t. WaitQuota t \<in> set (waits (snd (retryOperation operation rnd retries delay st)))
        \<longrightarrow> 5000 \<le> t \<and> t \<le> 8000)"
proof (induction operation rnd retries delay st rule: retryOperation.induct)
  case (1 operation rnd retries delay st)
  note rnd = "1.prems"(1) and ws = "1.prems"(2)
  show ?case
  proof (cases "operation (calls st)")
    case (Inr v)
    show ?thesis
      using ws by (simp add: retry_Inr [where operation = operation and st = st, OF Inr])
  next
    case (Inl e)
    show ?thesis
    proof (cases "retries \<le> 0")
      case True
      show ?thesis
        using ws
        by (simp add: retry_exhausted [where operation = operation and st = st, OF Inl True])
    next
      case False
      then have pos: "0 < retries" by simp
      show ?thesis
      proof (cases "isRateLimitError e")
        case True
        have w: "5000 \<le> 5000 + rnd (draws st) * 3000 \<and> 5000 + rnd (draws st) * 3000 \<le> 8000"
          using rnd [rule_format, of "draws st"] by auto
        have step: "retryOperation operation rnd retries delay st =
          retryOperation operation rnd (retries - 1) (delay * 2)
            (st\<lparr>calls := Suc (calls st), draws := Suc (draws st),
                waits := waits st @ [WaitQuota (5000 + rnd (draws st) * 3000)]\<rparr>)"
          using Inl pos True by (rule retry_RateLimited)
        show ?thesis
          unfolding step
          by (rule "1.IH"(1) [OF Inl False True]) (use rnd ws w in auto)
      next
        case nr: False
        show ?thesis
        proof (cases "isNetworkError e \<or> isServerError e \<or> isRpcError e")
          case True
          have step: "retryOperation operation rnd retries delay st =
            retryOperation operation rnd (retries - 1) (delay * 2)
              (st\<lparr>calls := Suc (calls st), waits := waits st @ [WaitDelay delay]\<rparr>)"
            using Inl pos nr True by (rule retry_Transient)
          show ?thesis
            unfolding step
            by (rule "1.IH"(2) [OF Inl False nr True]) (use rnd ws in auto)
        next
          case False
          show ?thesis
            using ws
            by (simp add: retry_Fatal [where operation = operation and st = st, OF Inl nr False])
        qed
      qed
    qed
  qed
qed

text \<open>
  Two runs that differ in the base delay only invoke the operation as often, draw as often
  and log the same waits in the rate-limit branch.
\<close>

lemma retry_delay_independent:
  "calls st' = calls st \<Longrightarrow> draws st' = draws st \<Longrightarrow>
   filter isQuota (waits st') = filter isQuota (waits st) \<Longrightarrow>
   filter isQuota (waits (snd (retryOperation operation rnd retries delay' st'))) =
   filter isQuota (waits (snd (retryOperation operation rnd retries delay st)))"
proof (induction operation rnd retries delay st arbitrary: delay' st'
       rule: retryOperation.induct)
  case (1 operation rnd retries delay st)
  note c = "1.prems"(1) and d = "1.prems"(2) and w = "1.prems"(3)
  show ?case
  proof (cases "operation (calls st)")
    case (Inr v)
    then have Inr': "operation (calls st') = Inr v" by (simp add: c)
    show ?thesis
      by (simp add: retry_Inr [where operation = operation and st = st, OF Inr]
          retry_Inr [where operation = operation and st = st', OF Inr'] w)
  next
    case (Inl e)
    then have Inl': "operation (calls st') = Inl e" by (simp add: c)
    show ?thesis
    proof (cases "retries \<le> 0")
      case True
      show ?thesis
        by (simp add: retry_exhausted [where operation = operation and st = st, OF Inl True]
            retry_exhausted [where operation = operation and st = st', OF Inl' True] w)
    next
      case False
      then have pos: "0 < retries" by simp
      show ?thesis
      proof (cases "isRateLimitError e")
        case True
        have s1: "retryOperation operation rnd retries delay st =
          retryOperation operation rnd (retries - 1) (delay * 2)
            (st\<lparr>calls := Suc (calls st), draws := Suc (draws st),
                waits := waits st @ [WaitQuota (5000 + rnd (draws st) * 3000)]\<rparr>)"
          using Inl pos True by (rule retry_RateLimited)
        have s2: "retryOperation operation rnd retries delay' st' =
          retryOperation operation rnd (retries - 1) (delay' * 2)
            (st'\<lparr>calls := Suc (calls st'), draws := Suc (draws st'),
                waits := waits st' @ [WaitQuota (5000 + rnd (draws st') * 3000)]\<rparr>)"
          using Inl' pos True by (rule retry_RateLimited)
        show ?thesis
          unfolding s1 s2
          by (rule "1.IH"(1) [OF Inl False True]) (simp_all add: c d w)
      next
        case nr: False
        show ?thesis
        proof (cases "isNetworkError e \<or> isServerError e \<or> isRpcError e")
          case True
          have s1: "retryOperation operation rnd retries delay st =
            retryOperation operation rnd (retries - 1) (delay * 2)
              (st\<lparr>calls := Suc (calls st), waits := waits st @ [WaitDelay delay]\<rparr>)"
            using Inl pos nr True by (rule retry_Transient)
          have s2: "retryOperation operation rnd retries delay' st' =
            retryOperation operation rnd (retries - 1) (delay' * 2)
              (st'\<lparr>calls := Suc (calls st'), waits := waits st' @ [WaitDelay delay']\<rparr>)"
            using Inl' pos nr True by (rule retry_Transient)
          show ?thesis
            unfolding s1 s2
            by (rule "1.IH"(2) [OF Inl False nr True]) (simp_all add: c d w)
        next
          case False
          show ?thesis
            by (simp add: retry_Fatal [where operation = operation and st = st, OF Inl nr False]
                retry_Fatal [where operation = operation and st = st', OF Inl' nr False] w)
        qed
      qed
    qed
  qed
qed

section \<open>The claims about the retry policy\<close>

text \<open>
  C3. An operation that fails at every invocation with a retryable classification
  (transient, and also rate-limited) is invoked exactly 3 times under the default budget
  of 2 retries, and the returned promise rejects with the error of the third and last
  invocation. In general it is invoked \<open>retries + 1\<close> times.
\<close>

theorem retry_bound:
  assumes "\<forall>k. \<exists>e. operation k = Inl e \<and> classify e \<noteq> Fatal"
  shows "fst (retryOperation operation rnd default_retries delay rstate0) = operation 2 \<and>
         calls (snd (retryOperation operation rnd default_retries delay rstate0)) = 3 \<and>
         (\<forall>n\<ge>0. fst (retryOperation operation rnd n delay rstate0) = operation (nat n) \<and>
                calls (snd (retryOperation operation rnd n delay rstate0)) = nat n + 1)"
proof -
  have fails: "\<And>k. \<exists>e. operation k = Inl e \<and> classify e \<noteq> Fatal"
    using assms by blast
  have gen: "fst (retryOperation operation rnd n delay rstate0) = operation (nat n) \<and>
             calls (snd (retryOperation operation rnd n delay rstate0)) = nat n + 1"
    if "0 \<le> n" for n
    using retry_always_retryable [of operation n rnd delay rstate0, OF fails that]
    by (simp add: rstate0_def)
  have "fst (retryOperation operation rnd 2 delay rstate0) = operation 2 \<and>
        calls (snd (retryOperation operation rnd 2 delay rstate0)) = 3"
    using gen [of 2] by simp
  then show ?thesis using gen by (simp add: default_retries_def)
qed

theorem retry_bound_witness:
  "(\<forall>k. \<exists>e. (\<lambda>k. Inl \<lparr>code = JUndefined, status = JNum 500, message = None\<rparr> :: error + unit) k
            = Inl e \<and> classify e \<noteq> Fatal) \<and>
   fst (retryOperation
          (\<lambda>k. Inl \<lparr>code = JUndefined, status = JNum 500, message = None\<rparr> :: error + unit)
          (\<lambda>k. 0) default_retries 2000 rstate0)
     = Inl \<lparr>code = JUndefined, status = JNum 500, message = None\<rparr> \<and>
   calls (snd (retryOperation
          (\<lambda>k. Inl \<lparr>code = JUndefined, status = JNum 500, message = None\<rparr> :: error + unit)
          (\<lambda>k. 0) default_retries 2000 rstate0)) = 3"
proof -
  have h: "\<forall>k. \<exists>e. (\<lambda>k. Inl \<lparr>code = JUndefined, status = JNum 500, message = None\<rparr>
                        :: error + unit) k = Inl e \<and> classify e \<noteq> Fatal"
    by (simp add: classify_def isRateLimitError_def isNetworkError_def isServerError_def)
  show ?thesis
    using h retry_bound [OF h, of "\<lambda>k. 0" 2000] by simp
qed

text \<open>
  C4. The branches of \<^verbatim>\<open>retryOperation\<close> classify an error as the specification
  words it: rateLimited, transient and fatal hold exactly when the specification says,
  and once retries remain the classification decides what happens: a retry after a drawn
  wait, a retry after the base delay, or the error thrown again.
\<close>

theorem classification_as_specified:
  "(classify e = RateLimited \<longleftrightarrow> spec_rateLimited e) \<and>
   (classify e = Transient \<longleftrightarrow> spec_transient e) \<and>
   (classify e = Fatal \<longleftrightarrow> spec_fatal e) \<and>
   (operation (calls st) = Inl e \<and> 0 < retries \<longrightarrow>
      retryOperation operation rnd retries delay st =
        (case classify e of
           RateLimited \<Rightarrow>
             retryOperation operation rnd (retries - 1) (delay * 2)
               (st\<lparr>calls := Suc (calls st), draws := Suc (draws st),
                   waits := waits st @ [WaitQuota (5000 + rnd (draws st) * 3000)]\<rparr>)
         | Transient \<Rightarrow>
             retryOperation operation rnd (retries - 1) (delay * 2)
               (st\<lparr>calls := Suc (calls st), waits := waits st @ [WaitDelay delay]\<rparr>)
         | Fatal \<Rightarrow> (Inl e, st\<lparr>calls := Suc (calls st)\<rparr>)))"
proof -
  have r: "classify e = RateLimited \<longleftrightarrow> spec_rateLimited e"
    by (simp add: classify_RateLimited isRateLimitError_spec)
  have t: "classify e = Transient \<longleftrightarrow> spec_transient e"
    by (simp add: classify_Transient transient_spec)
  have f: "classify e = Fatal \<longleftrightarrow> spec_fatal e"
    using r t by (cases "classify e") (simp_all add: spec_fatal_def)
  have link: "retryOperation operation rnd retries delay st =
        (case classify e of
           RateLimited \<Rightarrow>
             retryOperation operation rnd (retries - 1) (delay * 2)
               (st\<lparr>calls := Suc (calls st), draws := Suc (draws st),
                   waits := waits st @ [WaitQuota (5000 + rnd (draws st) * 3000)]\<rparr>)
         | Transient \<Rightarrow>
             retryOperation operation rnd (retries - 1) (delay * 2)
               (st\<lparr>calls := Suc (calls st), waits := waits st @ [WaitDelay delay]\<rparr>)
         | Fatal \<Rightarrow> (Inl e, st\<lparr>calls := Suc (calls st)\<rparr>))"
    if e: "operation (calls st) = Inl e" and pos: "0 < retries"
  proof (cases "classify e")
    case RateLimited
    then have "isRateLimitError e" by (simp add: classify_RateLimited)
    with e pos show ?thesis
      by (simp add: RateLimited retry_RateLimited [where operation = operation and st = st])
  next
    case Transient
    then have "\<not> isRateLimitError e" "isNetworkError e \<or> isServerError e \<or> isRpcError e"
      by (simp_all add: classify_Transient)
    with e pos show ?thesis
      by (simp add: Transient retry_Transient [where operation = operation and st = st])
  next
    case Fatal
    then have "\<not> isRateLimitError e" "\<not> (isNetworkError e \<or> isServerError e \<or> isRpcError e)"
      by (simp_all add: classify_Fatal)
    with e show ?thesis
      by (simp add: Fatal retry_Fatal [where operation = operation and st = st])
  qed
  show ?thesis using r t f link by blast
qed

theorem classification_as_specified_witness:
  "spec_rateLimited \<lparr>code = JUndefined, status = JUndefined, message = Some ''Quota exceeded''\<rparr> \<and>
   spec_transient \<lparr>code = JNum 503, status = JUndefined, message = Some ''Unavailable''\<rparr> \<and>
   spec_fatal \<lparr>code = JNum 400, status = JStr ''INVALID_ARGUMENT'', message = Some ''Network''\<rparr> \<and>
   retryOperation
     (\<lambda>k. Inl \<lparr>code = JNum 400, status = JStr ''INVALID_ARGUMENT'', message = Some ''Network''\<rparr>
            :: error + unit)
     (\<lambda>k. 0) 2 2000 rstate0
   = (Inl \<lparr>code = JNum 400, status = JStr ''INVALID_ARGUMENT'', message = Some ''Network''\<rparr>,
      \<lparr>calls = 1, draws = 0, waits = []\<rparr>)"
proof -
  have a: "classify \<lparr>code = JUndefined, status = JUndefined, message = Some ''Quota exceeded''\<rparr>
           = RateLimited"
    by (simp add: classify_def isRateLimitError_def toLowerCase_def lowerChar_def)
  have b: "classify \<lparr>code = JNum 503, status = JUndefined, message = Some ''Unavailable''\<rparr>
           = Transient"
    by (simp add: classify_def isRateLimitError_def isServerError_def toLowerCase_def
        lowerChar_def)
  have c: "classify
             \<lparr>code = JNum 400, status = JStr ''INVALID_ARGUMENT'', message = Some ''Network''\<rparr>
           = Fatal"
    by (simp add: classify_def isRateLimitError_def isNetworkError_def isServerError_def
        isRpcError_def toLowerCase_def lowerChar_def)
  note spec1 = classification_as_specified
      [of "\<lparr>code = JUndefined, status = JUndefined, message = Some ''Quota exceeded''\<rparr>"
          "\<lambda>k. Inr ()" rstate0 2 "\<lambda>k. 0" 2000]
  note spec2 = classification_as_specified
      [of "\<lparr>code = JNum 503, status = JUndefined, message = Some ''Unavailable''\<rparr>"
          "\<lambda>k. Inr ()" rstate0 2 "\<lambda>k. 0" 2000]
  note spec3 = classification_as_specified
      [of "\<lparr>code = JNum 400, status = JStr ''INVALID_ARGUMENT'', message = Some ''Network''\<rparr>"
          "\<lambda>k. Inl \<lparr>code = JNum 400, status = JStr ''INVALID_ARGUMENT'',
                      message = Some ''Network''\<rparr> :: error + unit"
          rstate0 2 "\<lambda>k. 0" 2000]
  have 1: "spec_rateLimited
             \<lparr>code = JUndefined, status = JUndefined, message = Some ''Quota exceeded''\<rparr>"
    using a spec1 by blast
  have 2: "spec_transient \<lparr>code = JNum 503, status = JUndefined, message = Some ''Unavailable''\<rparr>"
    using b spec2 by blast
  have 3: "spec_fatal
             \<lparr>code = JNum 400, status = JStr ''INVALID_ARGUMENT'', message = Some ''Network''\<rparr>"
    using c spec3 by blast
  have 4: "retryOperation
     (\<lambda>k. Inl \<lparr>code = JNum 400, status = JStr ''INVALID_ARGUMENT'', message = Some ''Network''\<rparr>
            :: error + unit)
     (\<lambda>k. 0) 2 2000 rstate0
   = (Inl \<lparr>code = JNum 400, status = JStr ''INVALID_ARGUMENT'', message = Some ''Network''\<rparr>,
      \<lparr>calls = 1, draws = 0, waits = []\<rparr>)"
    using spec3 by (simp add: c rstate0_def)
  show ?thesis using 1 2 3 4 by blast
qed

text \<open>
  C5. When the operation throws an error that is neither rate-limited, network, server
  nor RPC-marked, \<^verbatim>\<open>retryOperation\<close> rejects with that error at once, whatever
  \<open>retries\<close> is: one more invocation, no draw, no wait.
\<close>

theorem fatal_fails_fast:
  assumes "operation (calls st) = Inl e"
    and "\<not> isRateLimitError e" and "\<not> isNetworkError e"
    and "\<not> isServerError e" and "\<not> isRpcError e"
  shows "retryOperation operation rnd retries delay st = (Inl e, st\<lparr>calls := Suc (calls st)\<rparr>) \<and>
         calls (snd (retryOperation operation rnd retries delay st)) = calls st + 1 \<and>
         waits (snd (retryOperation operation rnd retries delay st)) = waits st"
proof -
  have "\<not> (isNetworkError e \<or> isServerError e \<or> isRpcError e)"
    using assms by simp
  then have "retryOperation operation rnd retries delay st =
             (Inl e, st\<lparr>calls := Suc (calls st)\<rparr>)"
    using assms(1,2) retry_Fatal [where operation = operation and st = st] by blast
  then show ?thesis by simp
qed

theorem fatal_fails_fast_witness:
  "retryOperation
     (\<lambda>k. Inl \<lparr>code = JNum 400, status = JUndefined, message = Some ''Invalid schema''\<rparr>
            :: error + unit)
     (\<lambda>k. 0) 2 2000 rstate0
   = (Inl \<lparr>code = JNum 400, status = JUndefined, message = Some ''Invalid schema''\<rparr>,
      \<lparr>calls = 1, draws = 0, waits = []\<rparr>)"
  using fatal_fails_fast
    [of "\<lambda>k. Inl \<lparr>code = JNum 400, status = JUndefined, message = Some ''Invalid schema''\<rparr>
              :: error + unit"
        rstate0 "\<lparr>code = JNum 400, status = JUndefined, message = Some ''Invalid schema''\<rparr>"
        "\<lambda>k. 0" 2 2000]
  by (simp add: rstate0_def isRateLimitError_def isNetworkError_def isServerError_def
      isRpcError_def toLowerCase_def lowerChar_def)

text \<open>
  C6. With \<^verbatim>\<open>Math.random()\<close> in \<open>[0, 1)\<close>: after a rate-limited failure with
  retries left, the wait is \<open>5000 + random * 3000\<close>, which lies between 5000 and 8000
  and in which the base delay does not occur, and the next attempt gets twice the base
  delay. Every wait of that branch in a whole run lies in the window, and a run with
  another base delay logs the same rate-limit waits.
\<close>

theorem rate_limit_wait_window:
  assumes "\<forall>k. 0 \<le> rnd k \<and> rnd k < 1"
  shows "(operation (calls st) = Inl e \<and> 0 < retries \<and> isRateLimitError e \<longrightarrow>
            retryOperation operation rnd retries delay st =
              retryOperation operation rnd (retries - 1) (2 * delay)
                (st\<lparr>calls := Suc (calls st), draws := Suc (draws st),
                    waits := waits st @ [WaitQuota (5000 + rnd (draws st) * 3000)]\<rparr>) \<and>
            5000 \<le> 5000 + rnd (draws st) * 3000 \<and> 5000 + rnd (draws st) * 3000 \<le> 8000) \<and>
         (\<forall>t. WaitQuota t \<in> set (waits (snd (retryOperation operation rnd retries delay rstate0)))
              \<longrightarrow> 5000 \<le> t \<and> t \<le> 8000) \<and>
         (\<forall>delay'. filter isQuota (waits (snd (retryOperation operation rnd retries delay' rstate0)))
                  = filter isQuota (waits (snd (retryOperation operation rnd retries delay rstate0))))"
proof -
  have step: "retryOperation operation rnd retries delay st =
              retryOperation operation rnd (retries - 1) (2 * delay)
                (st\<lparr>calls := Suc (calls st), draws := Suc (draws st),
                    waits := waits st @ [WaitQuota (5000 + rnd (draws st) * 3000)]\<rparr>)"
    if "operation (calls st) = Inl e" "0 < retries" "isRateLimitError e"
    using that retry_RateLimited [where operation = operation and st = st and delay = delay]
    by (simp add: mult.commute)
  have bounds: "5000 \<le> 5000 + rnd (draws st) * 3000 \<and> 5000 + rnd (draws st) * 3000 \<le> 8000"
    using assms [rule_format, of "draws st"] by auto
  have window: "\<forall>t. WaitQuota t \<in> set (waits (snd (retryOperation operation rnd retries delay rstate0)))
              \<longrightarrow> 5000 \<le> t \<and> t \<le> 8000"
    by (rule retry_quota_window [OF assms]) (simp add: rstate0_def)
  have indep: "filter isQuota (waits (snd (retryOperation operation rnd retries delay' rstate0)))
             = filter isQuota (waits (snd (retryOperation operation rnd retries delay rstate0)))"
    for delay'
    by (rule retry_delay_independent) simp_all
  show ?thesis using step bounds window indep by blast
qed

theorem rate_limit_wait_window_witness:
  "(\<forall>k. (0::real) \<le> (\<lambda>k. 1 / 2) k \<and> (\<lambda>k. 1 / 2 :: real) k < 1) \<and>
   retryOperation
     (\<lambda>k. if k < 2 then Inl \<lparr>code = JNum 429, status = JUndefined, message = None\<rparr>
           else Inr (7 :: nat))
     (\<lambda>k. 1 / 2) 2 2000 rstate0
   = retryOperation
     (\<lambda>k. if k < 2 then Inl \<lparr>code = JNum 429, status = JUndefined, message = None\<rparr>
           else Inr (7 :: nat))
     (\<lambda>k. 1 / 2) 1 4000 \<lparr>calls = 1, draws = 1, waits = [WaitQuota 6500]\<rparr> \<and>
   (5000 :: real) \<le> 6500 \<and> (6500 :: real) \<le> 8000"
proof -
  have h: "\<forall>k. (0::real) \<le> (\<lambda>k. 1 / 2) k \<and> (\<lambda>k. 1 / 2 :: real) k < 1"
    by simp
  show ?thesis
    using h rate_limit_wait_window [OF h,
        of "\<lambda>k. if k < 2 then Inl \<lparr>code = JNum 429, status = JUndefined, message = None\<rparr>
                else Inr (7 :: nat)"
           rstate0 "\<lparr>code = JNum 429, status = JUndefined, message = None\<rparr>" 2 2000]
    by (simp add: rstate0_def isRateLimitError_def)
qed

text \<open>
  C7. After a transient failure with retries left, \<^verbatim>\<open>retryOperation\<close> waits the
  current base delay and gives the next attempt twice that delay. When every failure is
  transient, the waits are \<open>delay\<close>, \<open>2 * delay\<close>, \<open>4 * delay\<close> and so on from the
  delay the caller passed, one for each retry.
\<close>

theorem transient_backoff:
  "(operation (calls st) = Inl e \<and> 0 < retries \<and> classify e = Transient \<longrightarrow>
      retryOperation operation rnd retries delay st =
        retryOperation operation rnd (retries - 1) (2 * delay)
          (st\<lparr>calls := Suc (calls st), waits := waits st @ [WaitDelay delay]\<rparr>)) \<and>
   ((\<forall>k. \<exists>e. operation k = Inl e \<and> classify e = Transient) \<and> 0 \<le> retries \<longrightarrow>
      waits (snd (retryOperation operation rnd retries delay rstate0)) =
        map (\<lambda>k. WaitDelay (delay * 2 ^ k)) [0..<nat retries])"
proof -
  have step: "retryOperation operation rnd retries delay st =
        retryOperation operation rnd (retries - 1) (2 * delay)
          (st\<lparr>calls := Suc (calls st), waits := waits st @ [WaitDelay delay]\<rparr>)"
    if "operation (calls st) = Inl e" "0 < retries" "classify e = Transient"
    using that retry_Transient [where operation = operation and st = st and delay = delay]
    by (simp add: mult.commute classify_Transient)
  have run: "waits (snd (retryOperation operation rnd retries delay rstate0)) =
        map (\<lambda>k. WaitDelay (delay * 2 ^ k)) [0..<nat retries]"
    if "\<forall>k. \<exists>e. operation k = Inl e \<and> classify e = Transient" "0 \<le> retries"
    using retry_always_transient_waits [of operation retries rnd delay rstate0] that
    by (simp add: rstate0_def)
  show ?thesis using step run by blast
qed

theorem transient_backoff_witness:
  "(\<forall>k. \<exists>e. (\<lambda>k. Inl \<lparr>code = JNum 500, status = JUndefined, message = None\<rparr> :: error + unit) k
            = Inl e \<and> classify e = Transient) \<and>
   waits (snd (retryOperation
     (\<lambda>k. Inl \<lparr>code = JNum 500, status = JUndefined, message = None\<rparr> :: error + unit)
     (\<lambda>k. 0) 2 2000 rstate0))
   = [WaitDelay 2000, WaitDelay 4000]"
proof -
  have h: "\<forall>k. \<exists>e. (\<lambda>k. Inl \<lparr>code = JNum 500, status = JUndefined, message = None\<rparr>
                        :: error + unit) k = Inl e \<and> classify e = Transient"
    by (simp add: classify_def isRateLimitError_def isNetworkError_def isServerError_def)
  have n: "[0..<2] = [0, Suc 0]"
    by (simp add: upt_rec numeral_2_eq_2)
  show ?thesis
    using h transient_backoff
      [of "\<lambda>k. Inl \<lparr>code = JNum 500, status = JUndefined, message = None\<rparr> :: error + unit"
          rstate0 "\<lparr>code = JNum 500, status = JUndefined, message = None\<rparr>" 2 "\<lambda>k. 0" 2000,
       THEN conjunct2]
    by (simp add: n)
qed

section \<open>Properties of the queue\<close>

subsection \<open>Invariants of the events\<close>

lemma run_invariant:
  assumes body: "\<And>s. P s \<Longrightarrow> running s < concurrency s \<Longrightarrow> 0 < length (queue s) \<Longrightarrow> P (run_body s)"
  shows "P s \<Longrightarrow> P (run s) \<and> (\<forall>s'\<in>set (run_trace s). P s')"
proof (induction s rule: run.induct)
  case (1 s)
  show ?case
  proof (cases "running s < concurrency s \<and> 0 < length (queue s)")
    case True
    then have b: "P (run_body s)" using body "1.prems" by blast
    have "P (run (run_body s)) \<and> (\<forall>s'\<in>set (run_trace (run_body s)). P s')"
      using "1.IH" True b by blast
    then show ?thesis
      using True b by (subst run.simps, subst run_trace.simps) simp
  next
    case False
    then show ?thesis
      using "1.prems" by (subst run.simps, subst run_trace.simps) auto
  qed
qed

lemma step_invariant:
  assumes body: "\<And>s. P s \<Longrightarrow> running s < concurrency s \<Longrightarrow> 0 < length (queue s) \<Longrightarrow> P (run_body s)"
    and ins: "\<And>s p. P s \<Longrightarrow> P (add_insert s p)"
    and stl: "\<And>s t r. P s \<Longrightarrow> P (settle s t r)"
    and dec: "\<And>s t. P s \<Longrightarrow> t \<in> set (finishing s) \<Longrightarrow> P (finally_decrement s t)"
    and s: "P s"
  shows "P (step s ev) \<and> (\<forall>s'\<in>set (step_trace s ev). P s')"
proof (cases ev)
  case (Add p)
  show ?thesis
    using run_invariant [of P "add_insert s p", OF body] ins [OF s, of p]
    by (simp add: Add add_def)
next
  case (Settle t r)
  show ?thesis using stl [OF s, of t r] by (simp add: Settle)
next
  case (Finally t)
  show ?thesis
    using run_invariant [of P "finally_decrement s t", OF body] dec [OF s, of t] s
    by (simp add: Finally finally_callback_def)
qed

lemma exec_invariant:
  assumes body: "\<And>s. P s \<Longrightarrow> running s < concurrency s \<Longrightarrow> 0 < length (queue s) \<Longrightarrow> P (run_body s)"
    and ins: "\<And>s p. P s \<Longrightarrow> P (add_insert s p)"
    and stl: "\<And>s t r. P s \<Longrightarrow> P (settle s t r)"
    and dec: "\<And>s t. P s \<Longrightarrow> t \<in> set (finishing s) \<Longrightarrow> P (finally_decrement s t)"
  shows "P s \<Longrightarrow> P (exec s evs) \<and> (\<forall>s'\<in>set (exec_trace s evs). P s')"
proof (induction evs arbitrary: s)
  case Nil
  then show ?case by simp
next
  case (Cons ev evs)
  have st: "P (step s ev) \<and> (\<forall>s'\<in>set (step_trace s ev). P s')"
    using step_invariant [of P, OF body ins stl dec Cons.prems] by blast
  then show ?case using Cons.IH [of "step s ev"] Cons.prems by auto
qed

lemma length_remove1_int:
  "t \<in> set xs \<Longrightarrow> int (length (remove1 t xs)) = int (length xs) - 1"
  by (induction xs) auto

lemma gate_exec:
  assumes "0 \<le> C"
  shows "gate C (exec (PromiseQueue_new C) evs) \<and> (\<forall>s\<in>set (exec_trace (PromiseQueue_new C) evs). gate C s)"
proof (rule exec_invariant)
  show "gate C (PromiseQueue_new C)" using assms by (simp add: gate_def PromiseQueue_new_def)
next
  fix s :: "'a PromiseQueue" assume "gate C s" "running s < concurrency s" "0 < length (queue s)"
  then show "gate C (run_body s)"
    by (cases "queue s") (auto simp: gate_def run_body_def)
next
  fix s :: "'a PromiseQueue" and p assume "gate C s"
  then show "gate C (add_insert s p)" by (simp add: gate_def add_insert_def Let_def)
next
  fix s :: "'a PromiseQueue" and t r assume "gate C s"
  then show "gate C (settle s t r)"
    by (auto simp: gate_def settle_def length_remove1_int)
next
  fix s :: "'a PromiseQueue" and t assume "gate C s" "t \<in> set (finishing s)"
  then show "gate C (finally_decrement s t)"
    by (auto simp: gate_def finally_decrement_def length_remove1_int)
qed


subsection \<open>Insertion\<close>

lemma findIndex_takeWhile:
  "findIndex P xs =
     (if \<forall>x\<in>set xs. \<not> P x then - 1 else int (length (takeWhile (\<lambda>x. \<not> P x) xs)))"
  by (induction xs) (auto simp: Let_def)

lemma splice_take_drop:
  "0 \<le> k \<Longrightarrow> k \<le> int (length xs) \<Longrightarrow> splice xs k x = take (nat k) xs @ x # drop (nat k) xs"
  by (simp add: splice_def Let_def min_def)

lemma enqueue_eq:
  "enqueue q item =
     (if priority item then takeWhile priority q @ item # dropWhile priority q else q @ [item])"
proof (cases "priority item")
  case False
  then show ?thesis by (simp add: enqueue_def)
next
  case True
  show ?thesis
  proof (cases "\<forall>x\<in>set q. priority x")
    case all: True
    then have "findIndex (\<lambda>i. \<not> priority i) q = - 1" by (simp add: findIndex_takeWhile)
    moreover have tw: "takeWhile priority q = q" "dropWhile priority q = []"
      using all by simp_all
    ultimately show ?thesis using True by (simp add: enqueue_def tw)
  next
    case False
    let ?k = "length (takeWhile priority q)"
    have k: "findIndex (\<lambda>i. \<not> priority i) q = int ?k"
      using False by (simp add: findIndex_takeWhile)
    have "splice q (int ?k) item = take ?k q @ item # drop ?k q"
      by (simp add: splice_take_drop length_takeWhile_le)
    also have "\<dots> = takeWhile priority q @ item # dropWhile priority q"
      using takeWhile_eq_take [of priority q] dropWhile_eq_drop [of priority q] by simp
    finally show ?thesis using True k by (simp add: enqueue_def)
  qed
qed

lemma high_first_Nil: "high_first []"
  by (simp add: high_first_def)

lemma high_first_Cons:
  "high_first (x # xs) \<longleftrightarrow> (priority x \<or> (\<forall>y\<in>set xs. \<not> priority y)) \<and> high_first xs"
proof
  assume h: "high_first (x # xs)"
  have "high_first xs"
    unfolding high_first_def
  proof (intro allI impI)
    fix i j assume "i < length xs" "j < length xs" "priority (xs ! i) \<and> \<not> priority (xs ! j)"
    then have "Suc i < Suc j"
      using h [unfolded high_first_def, rule_format, of "Suc i" "Suc j"] by simp
    then show "i < j" by simp
  qed
  moreover have "priority x \<or> (\<forall>y\<in>set xs. \<not> priority y)"
  proof (rule ccontr)
    assume "\<not> (priority x \<or> (\<forall>y\<in>set xs. \<not> priority y))"
    then obtain y where nx: "\<not> priority x" and y: "y \<in> set xs" "priority y" by blast
    then obtain k where k: "k < length xs" "xs ! k = y" by (auto simp: in_set_conv_nth)
    have "Suc k < 0"
      using h [unfolded high_first_def, rule_format, of "Suc k" 0] k y nx by simp
    then show False by simp
  qed
  ultimately show "(priority x \<or> (\<forall>y\<in>set xs. \<not> priority y)) \<and> high_first xs" by blast
next
  assume a: "(priority x \<or> (\<forall>y\<in>set xs. \<not> priority y)) \<and> high_first xs"
  show "high_first (x # xs)"
    unfolding high_first_def
  proof (intro allI impI)
    fix i j
    assume i: "i < length (x # xs)" and j: "j < length (x # xs)"
      and p: "priority ((x # xs) ! i) \<and> \<not> priority ((x # xs) ! j)"
    show "i < j"
    proof (cases i)
      case 0
      then show ?thesis using p by (cases j) auto
    next
      case (Suc i')
      show ?thesis
      proof (cases j)
        case 0
        then have "\<not> priority x" using p by simp
        moreover have "xs ! i' \<in> set xs" "priority (xs ! i')" using i p Suc by auto
        ultimately show ?thesis using a by blast
      next
        case (Suc j')
        have "i' < j'"
          using a [THEN conjunct2, unfolded high_first_def, rule_format, of i' j'] i j p Suc \<open>i = Suc i'\<close>
          by simp
        then show ?thesis using Suc \<open>i = Suc i'\<close> by simp
      qed
    qed
  qed
qed

lemma high_first_dropWhile:
  "high_first q \<longleftrightarrow> (\<forall>x\<in>set (dropWhile priority q). \<not> priority x)"
proof (induction q)
  case Nil
  show ?case by (simp add: high_first_Nil)
next
  case (Cons x xs)
  show ?case
  proof (cases "priority x")
    case True
    then show ?thesis using Cons by (simp add: high_first_Cons)
  next
    case False
    then show ?thesis
      using Cons set_dropWhileD [of _ priority xs] by (auto simp: high_first_Cons)
  qed
qed

lemma dropWhile_takeWhile_append:
  "dropWhile P (takeWhile P xs @ ys) = dropWhile P ys"
  by (induction xs) auto

lemma set_dropWhile_snoc:
  "set (dropWhile P (xs @ [y])) \<subseteq> insert y (set (dropWhile P xs))"
  by (induction xs) auto

lemma high_first_enqueue:
  assumes "high_first q"
  shows "high_first (enqueue q item)"
proof -
  have tail: "\<forall>x\<in>set (dropWhile priority q). \<not> priority x"
    using assms by (simp only: high_first_dropWhile)
  show ?thesis
  proof (cases "priority item")
    case True
    have "dropWhile priority (takeWhile priority q @ item # dropWhile priority q) =
          dropWhile priority (item # dropWhile priority q)"
      by (rule dropWhile_takeWhile_append)
    also have "\<dots> = dropWhile priority q"
      using True by simp
    finally have "\<forall>x\<in>set (dropWhile priority (enqueue q item)). \<not> priority x"
      using tail True by (simp only: enqueue_eq if_True)
    then show ?thesis by (simp only: high_first_dropWhile)
  next
    case False
    have "\<forall>x\<in>insert item (set (dropWhile priority q)). \<not> priority x"
      using False tail by simp
    then have "\<forall>x\<in>set (dropWhile priority (q @ [item])). \<not> priority x"
      using set_dropWhile_snoc [of priority q item] by blast
    then have "\<forall>x\<in>set (dropWhile priority (enqueue q item)). \<not> priority x"
      using False by (simp only: enqueue_eq if_False)
    then show ?thesis by (simp only: high_first_dropWhile)
  qed
qed

lemma filter_class_enqueue:
  assumes "high_first q"
  shows "filter (\<lambda>i. priority i = p) (enqueue q item) =
         filter (\<lambda>i. priority i = p) q @ (if priority item = p then [item] else [])"
proof (cases "priority item")
  case False
  then show ?thesis by (simp add: enqueue_eq)
next
  case True
  have split: "filter (\<lambda>i. priority i = p) q =
        filter (\<lambda>i. priority i = p) (takeWhile priority q) @
        filter (\<lambda>i. priority i = p) (dropWhile priority q)"
    by (metis filter_append takeWhile_dropWhile_id)
  show ?thesis
  proof (cases p)
    case p: True
    have "filter (\<lambda>i. priority i = p) (dropWhile priority q) = []"
      using assms p by (simp add: high_first_dropWhile filter_empty_conv)
    then show ?thesis using True p split by (simp add: enqueue_eq)
  next
    case False
    then show ?thesis using True split by (simp add: enqueue_eq)
  qed
qed

subsection \<open>Order of dispatch\<close>

lemma order_inv_exec:
  "order_inv (exec (PromiseQueue_new C) evs)"
proof -
  have "order_inv (exec (PromiseQueue_new C) evs) \<and>
        (\<forall>s\<in>set (exec_trace (PromiseQueue_new C :: 'a PromiseQueue) evs). order_inv s)"
  proof (rule exec_invariant)
    show "order_inv (PromiseQueue_new C :: 'a PromiseQueue)"
      by (simp add: order_inv_def PromiseQueue_new_def high_first_Nil)
  next
    fix s :: "'a PromiseQueue"
    assume "order_inv s" "running s < concurrency s" "0 < length (queue s)"
    then show "order_inv (run_body s)"
      by (cases "queue s") (auto simp: order_inv_def run_body_def high_first_Cons)
  next
    fix s :: "'a PromiseQueue" and p assume "order_inv s"
    then show "order_inv (add_insert s p)"
      by (simp add: order_inv_def add_insert_def Let_def high_first_enqueue filter_class_enqueue)
  next
    fix s :: "'a PromiseQueue" and t r assume "order_inv s"
    then show "order_inv (settle s t r)" by (simp add: order_inv_def settle_def)
  next
    fix s :: "'a PromiseQueue" and t assume "order_inv s"
    then show "order_inv (finally_decrement s t)"
      by (simp add: order_inv_def finally_decrement_def)
  qed
  then show ?thesis by blast
qed

subsection \<open>Identity of the tasks and settlement of the handles\<close>

lemma set_enqueue: "set (enqueue q item) = insert item (set q)"
proof -
  have "set q = set (takeWhile priority q @ dropWhile priority q)" by simp
  then have "set q = set (takeWhile priority q) \<union> set (dropWhile priority q)"
    by (simp only: set_append)
  then show ?thesis by (auto simp: enqueue_eq)
qed

lemma distinct_map_insert:
  "distinct (map f (xs @ a @ b)) \<Longrightarrow> f x \<notin> f ` set (xs @ a @ b) \<Longrightarrow>
   distinct (map f (xs @ a @ x # b))"
  by auto

lemma distinct_map_enqueue:
  assumes "distinct (map f (xs @ q))" and "f item \<notin> f ` set (xs @ q)"
  shows "distinct (map f (xs @ enqueue q item))"
proof (cases "priority item")
  case True
  have "distinct (map f (xs @ takeWhile priority q @ item # dropWhile priority q))"
    by (rule distinct_map_insert) (use assms in simp_all)
  then show ?thesis using True by (simp only: enqueue_eq if_True)
next
  case False
  have "distinct (map f (xs @ q @ [item]))"
    using distinct_map_insert [of f xs q "[]" item] assms by simp
  then show ?thesis using False by (simp only: enqueue_eq if_False)
qed

lemma wrappedTask_single:
  "wrappedTask r = [case r of Inr v \<Rightarrow> Resolved v | Inl e \<Rightarrow> Rejected e]"
  by (simp add: wrappedTask_def split: sum.splits)

lemma settle_inv_exec:
  "settle_inv (exec (PromiseQueue_new C) evs)"
proof -
  have "settle_inv (exec (PromiseQueue_new C) evs) \<and>
        (\<forall>s\<in>set (exec_trace (PromiseQueue_new C :: 'a PromiseQueue) evs). settle_inv s)"
  proof (rule exec_invariant)
    show "settle_inv (PromiseQueue_new C :: 'a PromiseQueue)"
      by (simp add: settle_inv_def PromiseQueue_new_def)
  next
    fix s :: "'a PromiseQueue"
    assume "settle_inv s" "running s < concurrency s" "0 < length (queue s)"
    then show "settle_inv (run_body s)"
      by (cases "queue s") (auto simp: settle_inv_def run_body_def)
  next
    fix s :: "'a PromiseQueue" and p assume a: "settle_inv s"
    let ?item = "\<lparr>task = created s, priority = p\<rparr>"
    have fresh: "task ?item \<notin> task ` set (started s @ queue s)"
      using a by (auto simp: settle_inv_def)
    have "distinct (map task (started s @ enqueue (queue s) ?item))"
      using a fresh by (intro distinct_map_enqueue) (simp_all add: settle_inv_def)
    moreover have "\<forall>x\<in>set (started s @ enqueue (queue s) ?item). task x < Suc (created s)"
      using a by (auto simp: settle_inv_def set_enqueue less_Suc_eq)
    ultimately show "settle_inv (add_insert s p)"
      using a by (simp add: settle_inv_def add_insert_def Let_def)
  next
    fix s :: "'a PromiseQueue" and t r assume a: "settle_inv s"
    show "settle_inv (settle s t r)"
    proof (cases "t \<in> set (pending s)")
      case False
      then show ?thesis using a by (simp add: settle_def)
    next
      case True
      then show ?thesis
        using a by (auto simp: settle_inv_def settle_def wrappedTask_single)
    qed
  next
    fix s :: "'a PromiseQueue" and t assume "settle_inv s"
    then show "settle_inv (finally_decrement s t)"
      by (simp add: settle_inv_def finally_decrement_def)
  qed
  then show ?thesis by blast
qed

lemma before_in_set: "before a b xs \<Longrightarrow> b \<in> set xs"
  by (induction xs) (auto split: if_splits)

lemma before_filter: "P a \<Longrightarrow> P b \<Longrightarrow> before a b (filter P xs) = before a b xs"
  by (induction xs) auto

lemma before_append_left: "before a b (xs @ ys) \<Longrightarrow> b \<notin> set ys \<Longrightarrow> before a b xs"
  by (induction xs) (auto dest: before_in_set split: if_splits)






lemma retry_result_last:
  "fst (retryOperation operation rnd retries delay st) =
     operation (calls (snd (retryOperation operation rnd retries delay st)) - 1) \<and>
   calls st < calls (snd (retryOperation operation rnd retries delay st))"
proof (induction operation rnd retries delay st rule: retryOperation.induct)
  case (1 operation rnd retries delay st)
  show ?case
  proof (cases "operation (calls st)")
    case (Inr v)
    show ?thesis
      by (simp add: retry_Inr [where operation = operation and st = st, OF Inr] Inr)
  next
    case (Inl e)
    show ?thesis
    proof (cases "retries \<le> 0")
      case True
      show ?thesis
        by (simp add: retry_exhausted [where operation = operation and st = st, OF Inl True] Inl)
    next
      case False
      then have pos: "0 < retries" by simp
      show ?thesis
      proof (cases "isRateLimitError e")
        case True
        have step: "retryOperation operation rnd retries delay st =
          retryOperation operation rnd (retries - 1) (delay * 2)
            (st\<lparr>calls := Suc (calls st), draws := Suc (draws st),
                waits := waits st @ [WaitQuota (5000 + rnd (draws st) * 3000)]\<rparr>)"
          using Inl pos True by (rule retry_RateLimited)
        show ?thesis
          unfolding step using "1.IH"(1) [OF Inl False True] by simp
      next
        case nr: False
        show ?thesis
        proof (cases "isNetworkError e \<or> isServerError e \<or> isRpcError e")
          case True
          have step: "retryOperation operation rnd retries delay st =
            retryOperation operation rnd (retries - 1) (delay * 2)
              (st\<lparr>calls := Suc (calls st), waits := waits st @ [WaitDelay delay]\<rparr>)"
            using Inl pos nr True by (rule retry_Transient)
          show ?thesis
            unfolding step using "1.IH"(2) [OF Inl False nr True] by simp
        next
          case False
          show ?thesis
            by (simp add: retry_Fatal [where operation = operation and st = st, OF Inl nr False] Inl)
        qed
      qed
    qed
  qed
qed

subsection \<open>No task waits while a slot is free\<close>





subsection \<open>Accounting of the counter\<close>

lemma last_run_trace: "last (s # run_trace s) = run s"
proof (induction s rule: run.induct)
  case (1 s)
  show ?case
  proof (cases "running s < concurrency s \<and> 0 < length (queue s)")
    case True
    then show ?thesis
      using "1.IH" by (subst run_trace.simps, subst run.simps) simp
  next
    case False
    then show ?thesis by (subst run_trace.simps, subst run.simps) auto
  qed
qed

lemma last_step_trace: "last (s # step_trace s ev) = step s ev"
proof (cases ev)
  case (Add p)
  show ?thesis
    using last_run_trace [of "add_insert s p"] by (simp add: Add add_def)
next
  case (Settle t r)
  show ?thesis by (simp add: Settle)
next
  case (Finally t)
  show ?thesis
    using last_run_trace [of "finally_decrement s t"]
    by (simp add: Finally finally_callback_def)
qed

lemma exec_trace_not_Nil: "exec_trace s evs \<noteq> []"
  by (cases evs) simp_all

lemma last_exec_trace: "last (exec_trace s evs) = exec s evs"
proof (induction evs arbitrary: s)
  case Nil
  show ?case by simp
next
  case (Cons ev evs)
  show ?case using Cons.IH [of "step s ev"] by (simp add: exec_trace_not_Nil)
qed

lemma account_inv_exec:
  "account_inv (exec (PromiseQueue_new C) evs) \<and>
   (\<forall>s\<in>set (exec_trace (PromiseQueue_new C :: 'a PromiseQueue) evs). account_inv s)"
proof (rule exec_invariant)
  show "account_inv (PromiseQueue_new C :: 'a PromiseQueue)"
    by (simp add: account_inv_def PromiseQueue_new_def)
next
  fix s :: "'a PromiseQueue"
  assume a: "account_inv s" and "running s < concurrency s" and "0 < length (queue s)"
  then obtain x rest where q: "queue s = x # rest" by (cases "queue s") auto
  have fresh: "task x \<notin> task ` set (started s)"
    using a q by (auto simp: account_inv_def)
  have eq: "set (pending s) \<union> set (finishing s) \<union> set (finalized s) = task ` set (started s)"
    using a by (simp add: account_inv_def)
  have "task x \<notin> set (pending s) \<union> set (finishing s) \<union> set (finalized s)"
    unfolding eq by (rule fresh)
  then show "account_inv (run_body s)"
    using a q fresh by (auto simp: account_inv_def run_body_def)
next
  fix s :: "'a PromiseQueue" and p assume a: "account_inv s"
  let ?item = "\<lparr>task = created s, priority = p\<rparr>"
  have fresh: "task ?item \<notin> task ` set (started s @ queue s)"
    using a by (auto simp: account_inv_def)
  have "distinct (map task (started s @ enqueue (queue s) ?item))"
    using a fresh by (intro distinct_map_enqueue) (simp_all add: account_inv_def)
  moreover have "\<forall>x\<in>set (started s @ enqueue (queue s) ?item). task x < Suc (created s)"
    using a by (auto simp: account_inv_def set_enqueue less_Suc_eq)
  ultimately show "account_inv (add_insert s p)"
    using a by (simp add: account_inv_def add_insert_def Let_def)
next
  fix s :: "'a PromiseQueue" and t r assume a: "account_inv s"
  show "account_inv (settle s t r)"
  proof (cases "t \<in> set (pending s)")
    case False
    then show ?thesis using a by (simp add: settle_def)
  next
    case True
    then show ?thesis
      using a by (auto simp: account_inv_def settle_def)
  qed
next
  fix s :: "'a PromiseQueue" and t assume a: "account_inv s" and t: "t \<in> set (finishing s)"
  then show "account_inv (finally_decrement s t)"
    by (auto simp: account_inv_def finally_decrement_def)
qed

section \<open>The claims about the queue\<close>

text \<open>
  C1. For a queue built with a limit \<open>C \<ge> 0\<close> and every sequence of events, in
  every state passed through, also inside the loop of \<^verbatim>\<open>run\<close> and between the
  decrement and the call of \<^verbatim>\<open>run\<close>, the counter satisfies
  \<open>0 \<le> running \<le> C\<close>. It is the number of starts less the number of runs of the
  \<^verbatim>\<open>finally\<close> callback, no task is started twice and no callback runs twice.
  The states passed through end in the state the events lead to. \<^verbatim>\<open>run\<close> starts
  the head only while \<open>running < C\<close> and each start adds one to the counter;
  \<^verbatim>\<open>add\<close> and the settlement of a handle leave the counter as it is; the
  \<^verbatim>\<open>finally\<close> callback of a settled task takes one off and then calls
  \<^verbatim>\<open>run\<close>.
\<close>

theorem running_bounded:
  assumes "0 \<le> C"
  shows "(\<forall>s\<in>set (exec_trace (PromiseQueue_new C :: 'a PromiseQueue) evs).
            0 \<le> running s \<and> running s \<le> C \<and>
            running s = int (length (pending s) + length (finishing s)) \<and>
            running s = int (length (started s)) - int (length (finalized s)) \<and>
            distinct (map task (started s)) \<and> distinct (finalized s) \<and>
            set (finalized s) \<subseteq> task ` set (started s)) \<and>
         last (exec_trace (PromiseQueue_new C :: 'a PromiseQueue) evs) =
           exec (PromiseQueue_new C) evs \<and>
         (\<forall>(s :: 'a PromiseQueue) ev. last (s # step_trace s ev) = step s ev) \<and>
         (\<forall>s :: 'a PromiseQueue.
            run s = (if running s < concurrency s \<and> queue s \<noteq> [] then run (run_body s) else s) \<and>
            (queue s \<noteq> [] \<longrightarrow>
               running (run_body s) = running s + 1 \<and>
               started (run_body s) = started s @ [hd (queue s)] \<and>
               queue (run_body s) = tl (queue s))) \<and>
         (\<forall>(s :: 'a PromiseQueue) p.
            step s (Add p) = run (add_insert s p) \<and> running (add_insert s p) = running s) \<and>
         (\<forall>(s :: 'a PromiseQueue) t outcome. running (step s (Settle t outcome)) = running s) \<and>
         (\<forall>(s :: 'a PromiseQueue) t. t \<in> set (finishing s) \<longrightarrow>
            step s (Finally t) = run (finally_decrement s t) \<and>
            running (finally_decrement s t) = running s - 1 \<and>
            finalized (finally_decrement s t) = finalized s @ [t])"
proof -
  have bound: "\<forall>s\<in>set (exec_trace (PromiseQueue_new C :: 'a PromiseQueue) evs).
            0 \<le> running s \<and> running s \<le> C \<and>
            running s = int (length (pending s) + length (finishing s)) \<and>
            running s = int (length (started s)) - int (length (finalized s)) \<and>
            distinct (map task (started s)) \<and> distinct (finalized s) \<and>
            set (finalized s) \<subseteq> task ` set (started s)"
  proof
    fix s assume s: "s \<in> set (exec_trace (PromiseQueue_new C :: 'a PromiseQueue) evs)"
    have g: "gate C s" using gate_exec [OF assms, of evs] s by blast
    have a: "account_inv s" using account_inv_exec [of C evs] s by blast
    show "0 \<le> running s \<and> running s \<le> C \<and>
            running s = int (length (pending s) + length (finishing s)) \<and>
            running s = int (length (started s)) - int (length (finalized s)) \<and>
            distinct (map task (started s)) \<and> distinct (finalized s) \<and>
            set (finalized s) \<subseteq> task ` set (started s)"
      using g a by (auto simp: gate_def account_inv_def)
  qed
  have loop: "run s = (if running s < concurrency s \<and> queue s \<noteq> [] then run (run_body s) else s) \<and>
            (queue s \<noteq> [] \<longrightarrow>
               running (run_body s) = running s + 1 \<and>
               started (run_body s) = started s @ [hd (queue s)] \<and>
               queue (run_body s) = tl (queue s))" for s :: "'a PromiseQueue"
  proof
    show "run s = (if running s < concurrency s \<and> queue s \<noteq> [] then run (run_body s) else s)"
      by (subst run.simps) simp
    show "queue s \<noteq> [] \<longrightarrow>
               running (run_body s) = running s + 1 \<and>
               started (run_body s) = started s @ [hd (queue s)] \<and>
               queue (run_body s) = tl (queue s)"
      by (cases "queue s") (simp_all add: run_body_def)
  qed
  have addstep: "step s (Add p) = run (add_insert s p) \<and> running (add_insert s p) = running s"
    for s :: "'a PromiseQueue" and p
    by (simp add: add_def add_insert_def Let_def)
  have settlestep: "running (step s (Settle t outcome)) = running s"
    for s :: "'a PromiseQueue" and t outcome
    by (simp add: settle_def)
  have fin: "step s (Finally t) = run (finally_decrement s t) \<and>
            running (finally_decrement s t) = running s - 1 \<and>
            finalized (finally_decrement s t) = finalized s @ [t]"
    if "t \<in> set (finishing s)" for s :: "'a PromiseQueue" and t
    using that by (simp add: finally_callback_def finally_decrement_def)
  have ends: "last (exec_trace (PromiseQueue_new C :: 'a PromiseQueue) evs) =
           exec (PromiseQueue_new C) evs"
    by (rule last_exec_trace)
  have steps: "\<forall>(s :: 'a PromiseQueue) ev. last (s # step_trace s ev) = step s ev"
    by (intro allI) (rule last_step_trace)
  show ?thesis
    by (intro conjI) (use bound ends steps loop addstep settlestep fin in blast)+
qed

theorem running_bounded_witness:
  "(0::int) \<le> 1 \<and>
   list_all (\<lambda>s. 0 \<le> running s \<and> running s \<le> 1 \<and>
                  running s = int (length (pending s) + length (finishing s)) \<and>
                  running s = int (length (started s)) - int (length (finalized s)))
     (exec_trace (PromiseQueue_new 1 :: unit PromiseQueue)
        [Add False, Add True, Settle 0 (Inr ()), Add False, Finally 0]) \<and>
   map running (exec_trace (PromiseQueue_new 1 :: unit PromiseQueue)
        [Add False, Add True, Settle 0 (Inr ()), Add False, Finally 0])
     = [0, 0, 1, 1, 1, 1, 1, 1, 1, 1, 0, 1, 1] \<and>
   map task (started (last (exec_trace (PromiseQueue_new 1 :: unit PromiseQueue)
        [Add False, Add True, Settle 0 (Inr ()), Add False, Finally 0]))) = [0, 1] \<and>
   finalized (last (exec_trace (PromiseQueue_new 1 :: unit PromiseQueue)
        [Add False, Add True, Settle 0 (Inr ()), Add False, Finally 0])) = [0]"
proof -
  let ?evs = "[Add False, Add True, Settle 0 (Inr ()), Add False, Finally 0] :: unit event list"
  have h: "(0::int) \<le> 1" by simp
  note inst = running_bounded [OF h, of ?evs]
  have tr: "\<forall>s\<in>set (exec_trace (PromiseQueue_new 1 :: unit PromiseQueue) ?evs).
      0 \<le> running s \<and> running s \<le> 1 \<and>
      running s = int (length (pending s) + length (finishing s)) \<and>
      running s = int (length (started s)) - int (length (finalized s))"
    using inst [THEN conjunct1] by blast
  have l: "last (exec_trace (PromiseQueue_new 1 :: unit PromiseQueue) ?evs) =
           exec (PromiseQueue_new 1) ?evs"
    using inst [THEN conjunct2, THEN conjunct1] .
  have r: "map running (exec_trace (PromiseQueue_new 1 :: unit PromiseQueue) ?evs)
     = [0, 0, 1, 1, 1, 1, 1, 1, 1, 1, 0, 1, 1]"
    by code_simp
  have st: "map task (started (exec (PromiseQueue_new 1 :: unit PromiseQueue) ?evs)) = [0, 1]"
    by code_simp
  have fz: "finalized (exec (PromiseQueue_new 1 :: unit PromiseQueue) ?evs) = [0]"
    by code_simp
  show ?thesis
    unfolding list_all_iff l using h tr r st fz by blast
qed

text \<open>
  C2. In every state the queue reaches, the insertion of \<^verbatim>\<open>add\<close> leaves the
  queue with every high-priority item before every normal one. A high-priority item goes
  to the index that \<^verbatim>\<open>findIndex\<close> gives for the first normal item, which is
  behind all the high-priority items queued before, and to the tail when there is no
  normal item; a normal item goes to the tail.
\<close>

theorem add_priority_position:
  "let s = exec (PromiseQueue_new C) evs;
       item = \<lparr>task = created s, priority = p\<rparr>;
       q = queue s;
       q' = queue (add_insert s p)
   in high_first q' \<and>
      (p \<longrightarrow> (\<exists>hs ns. q = hs @ ns \<and> (\<forall>x\<in>set hs. priority x) \<and> (\<forall>x\<in>set ns. \<not> priority x) \<and>
                 q' = hs @ item # ns \<and>
                 findIndex (\<lambda>i. \<not> priority i) q = (if ns = [] then - 1 else int (length hs)))) \<and>
      (\<not> p \<longrightarrow> q' = q @ [item])"
proof -
  define s where "s = exec (PromiseQueue_new C :: 'a PromiseQueue) evs"
  define item where "item = \<lparr>task = created s, priority = p\<rparr>"
  have q': "queue (add_insert s p) = enqueue (queue s) item"
    by (simp add: add_insert_def item_def Let_def)
  have hf: "high_first (queue s)"
    using order_inv_exec [of C evs] by (simp add: order_inv_def s_def)
  have 1: "high_first (queue (add_insert s p))"
    unfolding q' using hf by (rule high_first_enqueue)
  have 2: "\<exists>hs ns. queue s = hs @ ns \<and> (\<forall>x\<in>set hs. priority x) \<and> (\<forall>x\<in>set ns. \<not> priority x) \<and>
                 queue (add_insert s p) = hs @ item # ns \<and>
                 findIndex (\<lambda>i. \<not> priority i) (queue s) = (if ns = [] then - 1 else int (length hs))"
    if p
  proof (intro exI conjI)
    show "queue s = takeWhile priority (queue s) @ dropWhile priority (queue s)" by simp
    show "\<forall>x\<in>set (takeWhile priority (queue s)). priority x" by (auto dest: set_takeWhileD)
    show "\<forall>x\<in>set (dropWhile priority (queue s)). \<not> priority x"
      using hf by (simp only: high_first_dropWhile)
    show "queue (add_insert s p) = takeWhile priority (queue s) @ item # dropWhile priority (queue s)"
      unfolding q' using that by (simp add: enqueue_eq item_def)
    show "findIndex (\<lambda>i. \<not> priority i) (queue s) =
          (if dropWhile priority (queue s) = [] then - 1
           else int (length (takeWhile priority (queue s))))"
      by (simp add: findIndex_takeWhile)
  qed
  have 3: "queue (add_insert s p) = queue s @ [item]" if "\<not> p"
    unfolding q' using that by (simp add: enqueue_eq item_def)
  show ?thesis
    unfolding Let_def s_def [symmetric] item_def [symmetric] using 1 2 3 by blast
qed

theorem add_priority_position_witness:
  "queue (exec (PromiseQueue_new 1 :: unit PromiseQueue) [Add False, Add True, Add False])
     = [\<lparr>task = 1, priority = True\<rparr>, \<lparr>task = 2, priority = False\<rparr>] \<and>
   queue (add_insert (exec (PromiseQueue_new 1 :: unit PromiseQueue) [Add False, Add True, Add False]) True)
     = [\<lparr>task = 1, priority = True\<rparr>, \<lparr>task = 3, priority = True\<rparr>, \<lparr>task = 2, priority = False\<rparr>] \<and>
   high_first [\<lparr>task = 1, priority = True\<rparr>, \<lparr>task = 3, priority = True\<rparr>, \<lparr>task = 2, priority = False\<rparr>]"
proof -
  have a: "queue (exec (PromiseQueue_new 1 :: unit PromiseQueue) [Add False, Add True, Add False])
     = [\<lparr>task = 1, priority = True\<rparr>, \<lparr>task = 2, priority = False\<rparr>]"
    by code_simp
  have b: "queue (add_insert (exec (PromiseQueue_new 1 :: unit PromiseQueue)
             [Add False, Add True, Add False]) True)
     = [\<lparr>task = 1, priority = True\<rparr>, \<lparr>task = 3, priority = True\<rparr>, \<lparr>task = 2, priority = False\<rparr>]"
    by code_simp
  have "high_first (queue (add_insert (exec (PromiseQueue_new 1 :: unit PromiseQueue)
             [Add False, Add True, Add False]) True))"
    using add_priority_position
      [of 1 "[Add False, Add True, Add False] :: unit event list" True]
    by (simp only: Let_def)
  then show ?thesis using a b by simp
qed

text \<open>
  C8. In every execution and each priority class, the started items followed by the
  queued ones are the submitted ones in their order. So when \<open>a\<close> was submitted before
  \<open>b\<close> in the same class and \<open>b\<close> has been started, \<open>a\<close> was started before it;
  the witness submits two normal tasks while the single slot is taken.
\<close>

theorem fifo_within_class:
  "let s = exec (PromiseQueue_new C) evs
   in (\<forall>p. filter (\<lambda>i. priority i = p) (submitted s) =
            filter (\<lambda>i. priority i = p) (started s) @ filter (\<lambda>i. priority i = p) (queue s)) \<and>
      (\<forall>a b. priority a = priority b \<and> before a b (submitted s) \<and> b \<in> set (started s)
             \<longrightarrow> before a b (started s))"
proof -
  define s where "s = exec (PromiseQueue_new C :: 'a PromiseQueue) evs"
  have ord: "filter (\<lambda>i. priority i = p) (submitted s) =
             filter (\<lambda>i. priority i = p) (started s) @ filter (\<lambda>i. priority i = p) (queue s)"
    for p
    using order_inv_exec [of C evs] by (simp add: order_inv_def s_def)
  have dist: "distinct (map task (started s @ queue s))"
    using settle_inv_exec [of C evs] by (simp add: settle_inv_def s_def)
  have fifo: "before a b (started s)"
    if same: "priority a = priority b" and sub: "before a b (submitted s)"
      and b: "b \<in> set (started s)" for a b
  proof -
    let ?F = "filter (\<lambda>i. priority i = priority a)"
    have "distinct (started s @ queue s)" using dist distinct_map by blast
    then have "b \<notin> set (queue s)" using b by auto
    then have nq: "b \<notin> set (?F (queue s))" by simp
    have "before a b (?F (submitted s))"
      using sub same by (simp add: before_filter)
    then have "before a b (?F (started s) @ ?F (queue s))" by (simp only: ord)
    then have "before a b (?F (started s))" using nq by (rule before_append_left)
    then show ?thesis using same by (simp add: before_filter)
  qed
  show ?thesis unfolding Let_def s_def [symmetric] using ord fifo by blast
qed

theorem fifo_within_class_witness:
  "submitted (exec (PromiseQueue_new 1 :: unit PromiseQueue)
      [Add False, Add False, Add False, Settle 0 (Inr ()), Finally 0, Settle 1 (Inr ()), Finally 1])
     = [\<lparr>task = 0, priority = False\<rparr>, \<lparr>task = 1, priority = False\<rparr>,
        \<lparr>task = 2, priority = False\<rparr>] \<and>
   \<lparr>task = 2, priority = False\<rparr> \<in> set (started (exec (PromiseQueue_new 1 :: unit PromiseQueue)
      [Add False, Add False, Add False, Settle 0 (Inr ()), Finally 0, Settle 1 (Inr ()), Finally 1])) \<and>
   before \<lparr>task = 1, priority = False\<rparr> \<lparr>task = 2, priority = False\<rparr>
     (started (exec (PromiseQueue_new 1 :: unit PromiseQueue)
      [Add False, Add False, Add False, Settle 0 (Inr ()), Finally 0, Settle 1 (Inr ()), Finally 1]))"
proof -
  let ?s = "exec (PromiseQueue_new 1 :: unit PromiseQueue)
      [Add False, Add False, Add False, Settle 0 (Inr ()), Finally 0, Settle 1 (Inr ()), Finally 1]"
  have sub: "submitted ?s = [\<lparr>task = 0, priority = False\<rparr>, \<lparr>task = 1, priority = False\<rparr>,
        \<lparr>task = 2, priority = False\<rparr>]"
    by code_simp
  have st: "\<lparr>task = 2, priority = False\<rparr> \<in> set (started ?s)"
    by code_simp
  have bf: "before \<lparr>task = 1, priority = False\<rparr> \<lparr>task = 2, priority = False\<rparr> (submitted ?s)"
    unfolding sub by simp
  have "before \<lparr>task = 1, priority = False\<rparr> \<lparr>task = 2, priority = False\<rparr> (started ?s)"
    using fifo_within_class [of 1 "[Add False, Add False, Add False, Settle 0 (Inr ()), Finally 0,
        Settle 1 (Inr ()), Finally 1] :: unit event list"] bf st
    unfolding Let_def by simp
  then show ?thesis using sub st by blast
qed



section \<open>The claim about the regeneration of a question\<close>

lemma map_of_setp: "map_of (setp ps k v) = (map_of ps)(k \<mapsto> v)"
  by (induction ps) (auto simp: fun_eq_iff)

lemma getp_setp: "getp (setp ps k v) k' = (if k' = k then v else getp ps k')"
  by (simp add: getp_def map_of_setp)

lemma regenerate_operation_Inr:
  assumes "regenerate_operation eng uuid safeJsonParse question response = Inr result"
  shows "\<exists>text newData fixed.
           response = Inr (Some text) \<and> safeJsonParse text = Inr newData \<and>
           validateAndFixData eng uuid newData (getp question ''type'') = Inr fixed \<and>
           result = setp (setp (setp fixed ''id'' (getp question ''id''))
                      ''type'' (getp question ''type''))
                      ''figure_image'' (getp question ''figure_image'')"
  using assms
  by (auto simp: regenerate_operation_def split: sum.splits option.splits if_splits)

text \<open>
  C10. Whenever \<^verbatim>\<open>regenerateQuestionData\<close> returns a question, its
  \<^verbatim>\<open>id\<close>, \<^verbatim>\<open>type\<close> and \<^verbatim>\<open>figure_image\<close> are those of the question
  passed in, whatever the parsed response holds for them, and every other property is
  the one of the validated response of the invocation that succeeded. This holds for
  every engine, parser and sequence of responses, also when earlier invocations failed
  and were retried: in the witness the first response is the number 429, the
  \<^verbatim>\<open>TypeError\<close> of the validation quotes it and is retried as rate-limited, and
  the second response carries another id, type and figure.
\<close>

theorem regenerate_keeps_identity:
  assumes "regenerateQuestionData eng uuid safeJsonParse rnd question response = Inr result"
  shows "getp result ''id'' = getp question ''id'' \<and>
         getp result ''type'' = getp question ''type'' \<and>
         getp result ''figure_image'' = getp question ''figure_image'' \<and>
         (\<exists>k text newData fixed.
            response k = Inr (Some text) \<and> safeJsonParse text = Inr newData \<and>
            validateAndFixData eng (uuid k) newData (getp question ''type'') = Inr fixed \<and>
            (\<forall>key. key \<notin> {''id'', ''type'', ''figure_image''} \<longrightarrow>
                   getp result key = getp fixed key))"
proof -
  let ?op = "\<lambda>k. regenerate_operation eng (uuid k) safeJsonParse question (response k)"
  let ?r = "retryOperation ?op rnd default_retries default_delay rstate0"
  have "fst ?r = ?op (calls (snd ?r) - 1)"
    using retry_result_last [of ?op rnd default_retries default_delay rstate0] by blast
  then have "?op (calls (snd ?r) - 1) = Inr result"
    using assms by (simp add: regenerateQuestionData_def)
  then obtain body newData fixed where
    r: "response (calls (snd ?r) - 1) = Inr (Some body)" and
    p: "safeJsonParse body = Inr newData" and
    v: "validateAndFixData eng (uuid (calls (snd ?r) - 1)) newData (getp question ''type'')
          = Inr fixed" and
    res: "result = setp (setp (setp fixed ''id'' (getp question ''id''))
                      ''type'' (getp question ''type''))
                      ''figure_image'' (getp question ''figure_image'')"
    using regenerate_operation_Inr by blast
  have ids: "getp result ''id'' = getp question ''id'' \<and>
         getp result ''type'' = getp question ''type'' \<and>
         getp result ''figure_image'' = getp question ''figure_image''"
    by (simp add: res getp_setp)
  have rest: "\<forall>key. key \<notin> {''id'', ''type'', ''figure_image''} \<longrightarrow>
                   getp result key = getp fixed key"
    by (simp add: res getp_setp)
  show ?thesis using ids r p v rest by blast
qed

theorem regenerate_keeps_identity_witness:
  "regenerateQuestionData
     \<lparr>toStr = (\<lambda>v. ''?''), codeUnits = map (\<lambda>c. [c]),
      readMessage = (\<lambda>v. ''Cannot read properties of null''),
      createMessage = (\<lambda>v. ''Cannot create property on number '' @ [CHR 0x27] @ ''429'' @
                                [CHR 0x27])\<rparr>
     (\<lambda>k i. ''uuid'')
     (\<lambda>body. if body = ''429'' then Inr (JNum 429)
              else Inr (JObj [(''id'', JStr ''other''), (''type'', JStr ''essay''),
                              (''figure_image'', JStr ''picture''), (''content'', JStr ''2+2?''),
                              (''correct_option'', JStr ''C'')]))
     (\<lambda>k. 1 / 2)
     [(''id'', JStr ''q-1''), (''type'', JStr ''multiple_choice''), (''content'', JStr ''1+1?'')]
     (\<lambda>k. if k = 0 then Inr (Some ''429'') else Inr (Some ''{}'')) =
   Inr [(''id'', JStr ''q-1''), (''type'', JStr ''multiple_choice''),
        (''figure_image'', JUndefined), (''content'', JStr ''2+2?''),
        (''correct_option'', JStr ''C''), (''solution_guide'', JStr placeholder_solution),
        (''options'', JArr (replicate 4 (JStr placeholder_option)))] \<and>
   getp [(''id'', JStr ''q-1''), (''type'', JStr ''multiple_choice''),
        (''figure_image'', JUndefined), (''content'', JStr ''2+2?''),
        (''correct_option'', JStr ''C''), (''solution_guide'', JStr placeholder_solution),
        (''options'', JArr (replicate 4 (JStr placeholder_option)))] ''id'' = JStr ''q-1'' \<and>
   getp [(''id'', JStr ''q-1''), (''type'', JStr ''multiple_choice''),
        (''figure_image'', JUndefined), (''content'', JStr ''2+2?''),
        (''correct_option'', JStr ''C''), (''solution_guide'', JStr placeholder_solution),
        (''options'', JArr (replicate 4 (JStr placeholder_option)))] ''type''
     = JStr ''multiple_choice''"
proof -
  have e: "regenerateQuestionData
     \<lparr>toStr = (\<lambda>v. ''?''), codeUnits = map (\<lambda>c. [c]),
      readMessage = (\<lambda>v. ''Cannot read properties of null''),
      createMessage = (\<lambda>v. ''Cannot create property on number '' @ [CHR 0x27] @ ''429'' @
                                [CHR 0x27])\<rparr>
     (\<lambda>k i. ''uuid'')
     (\<lambda>body. if body = ''429'' then Inr (JNum 429)
              else Inr (JObj [(''id'', JStr ''other''), (''type'', JStr ''essay''),
                              (''figure_image'', JStr ''picture''), (''content'', JStr ''2+2?''),
                              (''correct_option'', JStr ''C'')]))
     (\<lambda>k. 1 / 2)
     [(''id'', JStr ''q-1''), (''type'', JStr ''multiple_choice''), (''content'', JStr ''1+1?'')]
     (\<lambda>k. if k = 0 then Inr (Some ''429'') else Inr (Some ''{}'')) =
   Inr [(''id'', JStr ''q-1''), (''type'', JStr ''multiple_choice''),
        (''figure_image'', JUndefined), (''content'', JStr ''2+2?''),
        (''correct_option'', JStr ''C''), (''solution_guide'', JStr placeholder_solution),
        (''options'', JArr (replicate 4 (JStr placeholder_option)))]"
    by code_simp
  have q: "getp [(''id'', JStr ''q-1''), (''type'', JStr ''multiple_choice''),
                 (''content'', JStr ''1+1?'')] ''id'' = JStr ''q-1''"
    "getp [(''id'', JStr ''q-1''), (''type'', JStr ''multiple_choice''),
           (''content'', JStr ''1+1?'')] ''type'' = JStr ''multiple_choice''"
    by (simp_all add: getp_def)
  show ?thesis
    using e regenerate_keeps_identity [OF e] by (simp only: q simp_thms)
qed

end
